theory Spec2Isabelle
  imports Main
begin

section \<open>The external scanner\<close>

text \<open>
  Both \<^verbatim>\<open>tokenizer.ts\<close> and \<^verbatim>\<open>parser.ts\<close> drive the scanner of the
  \<^verbatim>\<open>handlebars\<close> package (\<^verbatim>\<open>Parser.lexer\<close>, \<^verbatim>\<open>Parser.terminals_\<close>), which is
  not part of the repository. It is a parameter of the model: after \<^verbatim>\<open>setInput(content)\<close>
  a run of \<^verbatim>\<open>lex()\<close> calls yields finitely many terminals and then either reports
  \<^verbatim>\<open>EOF\<close> or throws. One \<open>lex_item\<close> is what the code reads after one successful
  \<^verbatim>\<open>lex()\<close>: \<^verbatim>\<open>terminals[tokenId]\<close> (undefined is \<open>None\<close>), \<^verbatim>\<open>yytext\<close> and
  \<^verbatim>\<open>yylloc\<close> (declared optional in \<^verbatim>\<open>parser.ts\<close>).
\<close>

record yylloc_t =
  first_line :: nat
  first_column :: nat
  last_line :: nat
  last_column :: nat

record lex_item =
  terminal :: "string option"
  yytext :: string
  yylloc :: "yylloc_t option"

datatype lex_end = ReachedEOF | Threw

type_synonym scan = "lex_item list \<times> lex_end"

type_synonym scanner = "string \<Rightarrow> scan"

section \<open>parser.ts\<close>

subsection \<open>Types\<close>

datatype expression_type = Mustache | Block | Endblock | Partial

record ExpressionToken =
  tname :: "string option"
  ttext :: string

record Expression =
  etype :: expression_type
  etokens :: "ExpressionToken list"
  helperName :: "string option"

text \<open>\<^verbatim>\<open>helper\<close> is \<^verbatim>\<open>tokens[0]?.text\<close>, undefined for a block tag without tokens.\<close>

record BlockFrame =
  helper :: "string option"
  bcontext :: string

record ExtractionContext =
  blockStack :: "BlockFrame list"
  contextPrefix :: "string option"
  rootContext :: "string option"

datatype variable_type = Simple | Nested | BlockVar

record ExtractedVariable =
  vname :: string
  vpath :: string
  vtype :: variable_type
  blockType :: "string option"
  vcontext :: "string option"

record ExtractionResult =
  variables :: "ExtractedVariable list"
  rootVariables :: "string list"

text \<open>
  \<^verbatim>\<open>Map<string, ExtractedVariable>\<close>: a JavaScript \<^verbatim>\<open>Map\<close> iterates in insertion
  order, so it is an association list; \<^verbatim>\<open>set\<close> of a new key appends.
\<close>

type_synonym variable_map = "(string \<times> ExtractedVariable) list"

subsection \<open>Constants\<close>

definition BLOCK_HELPER_NAMES :: "string list" where
  "BLOCK_HELPER_NAMES = [''if'', ''unless'', ''each'', ''with'']"

definition BUILT_IN_HELPERS :: "string set" where
  "BUILT_IN_HELPERS = set (BLOCK_HELPER_NAMES @ [''lookup'', ''log'', ''this'', ''else''])"

definition CONTEXT_HELPERS :: "string set" where
  "CONTEXT_HELPERS = {''each'', ''with''}"

definition ARGUMENT_TOKENS :: "string set" where
  "ARGUMENT_TOKENS = {''ID'', ''STRING'', ''NUMBER'', ''BOOLEAN'', ''DATA'', ''OPEN_SEXPR''}"

subsection \<open>JavaScript primitives\<close>

text \<open>\<^verbatim>\<open>xs[i]\<close>, with \<open>None\<close> for undefined.\<close>

definition at :: "'a list \<Rightarrow> nat \<Rightarrow> 'a option" where
  "at xs i = (if i < length xs then Some (xs ! i) else None)"

text \<open>\<^verbatim>\<open>tokens[i]?.name\<close>\<close>

definition name_at :: "ExpressionToken list \<Rightarrow> nat \<Rightarrow> string option" where
  "name_at toks i = (case at toks i of None \<Rightarrow> None | Some t \<Rightarrow> tname t)"

text \<open>Truthiness of an optional string: undefined, null and the empty string are falsy.\<close>

definition truthy :: "string option \<Rightarrow> bool" where
  "truthy v = (case v of None \<Rightarrow> False | Some s \<Rightarrow> s \<noteq> [])"

text \<open>\<^verbatim>\<open>parts.join('.')\<close>\<close>

fun join_dot :: "string list \<Rightarrow> string" where
  "join_dot [] = []"
| "join_dot [p] = p"
| "join_dot (p # q # ps) = p @ CHR ''.'' # join_dot (q # ps)"

text \<open>\<^verbatim>\<open>s.search(/\{\{/)\<close>, with \<open>None\<close> for \<^verbatim>\<open>-1\<close>.\<close>

fun search_open :: "string \<Rightarrow> nat option" where
  "search_open (a # b # cs) =
     (if a = CHR ''{'' \<and> b = CHR ''{'' then Some 0 else map_option Suc (search_open (b # cs)))"
| "search_open cs = None"

text \<open>\<^verbatim>\<open>[...new Set(xs)]\<close>: a \<^verbatim>\<open>Set\<close> keeps the first insertion of each value.\<close>

definition Set_add :: "'a list \<Rightarrow> 'a \<Rightarrow> 'a list" where
  "Set_add acc x = (if x \<in> set acc then acc else acc @ [x])"

definition new_Set :: "'a list \<Rightarrow> 'a list" where
  "new_Set xs = foldl Set_add [] xs"

subsection \<open>Pure utility functions\<close>

definition isBuiltIn :: "string \<Rightarrow> bool" where
  "isBuiltIn nm = (nm \<in> BUILT_IN_HELPERS \<or> (case nm of [] \<Rightarrow> False | c # _ \<Rightarrow> c = CHR ''@''))"

definition isArgumentToken :: "ExpressionToken \<Rightarrow> bool" where
  "isArgumentToken tok = (case tname tok of None \<Rightarrow> False | Some n \<Rightarrow> n \<in> ARGUMENT_TOKENS)"

fun collectPath_loop :: "bool \<Rightarrow> ExpressionToken list \<Rightarrow> string list" where
  "collectPath_loop expectingId [] = []"
| "collectPath_loop expectingId (tok # rest) =
     (if tname tok = Some ''EQUALS'' then []
      else if tname tok = Some ''ID'' then
        (if \<not> expectingId then []
         else if name_at rest 0 = Some ''EQUALS'' then []
         else ttext tok # collectPath_loop False rest)
      else if tname tok = Some ''SEP'' then collectPath_loop True rest
      else [])"

definition collectPath :: "ExpressionToken list \<Rightarrow> nat \<Rightarrow> string list" where
  "collectPath toks startIdx = collectPath_loop True (drop startIdx toks)"

definition createVariable ::
  "string \<Rightarrow> string \<Rightarrow> string option \<Rightarrow> string option \<Rightarrow> ExtractedVariable" where
  "createVariable nm path bt ctx =
     \<lparr> vname = nm, vpath = path,
       vtype = (if truthy bt then BlockVar
                else if CHR ''.'' \<in> set path \<or> truthy ctx then Nested else Simple),
       blockType = bt, vcontext = ctx \<rparr>"

text \<open>
  The loop of \<^verbatim>\<open>computeContextPath\<close>: \<open>parts\<close> and \<open>rootContext\<close> are its two
  variables.
\<close>

fun computeContextPath_loop ::
  "BlockFrame list \<Rightarrow> string list \<Rightarrow> string option \<Rightarrow> string list \<times> string option" where
  "computeContextPath_loop [] parts root = (parts, root)"
| "computeContextPath_loop (block # stack) parts root =
     (if (case helper block of None \<Rightarrow> False | Some h \<Rightarrow> h \<in> CONTEXT_HELPERS) \<and> bcontext block \<noteq> []
      then computeContextPath_loop stack
             (parts @ [if helper block = Some ''each'' then bcontext block @ ''[]'' else bcontext block])
             (if \<not> truthy root then Some (bcontext block) else root)
      else computeContextPath_loop stack parts root)"

text \<open>The result is the pair \<open>(prefix, root)\<close>, \<open>None\<close> for null.\<close>

definition computeContextPath :: "BlockFrame list \<Rightarrow> (string \<times> string) option" where
  "computeContextPath stack =
     (case computeContextPath_loop stack [] None of
        (parts, None) \<Rightarrow> None
      | (parts, Some root) \<Rightarrow>
          (if parts = [] \<or> root = [] then None
           else Some (join_dot parts @ ''.'', root)))"

subsection \<open>Expression parsing\<close>

text \<open>
  The local variables of \<^verbatim>\<open>parseSegment\<close>, and one turn of its \<^verbatim>\<open>for\<close> loop on
  the terminal that \<^verbatim>\<open>lex()\<close> has just returned.
\<close>

record segment_state =
  expressions :: "Expression list"
  lastPosition :: nat
  inExpression :: bool
  expressionType :: "expression_type option"
  tokens :: "ExpressionToken list"

definition open_expression :: "expression_type \<Rightarrow> segment_state \<Rightarrow> segment_state" where
  "open_expression ty st = st\<lparr> inExpression := True, expressionType := Some ty, tokens := [] \<rparr>"

definition parseSegment_step :: "segment_state \<Rightarrow> lex_item \<Rightarrow> segment_state" where
  "parseSegment_step st0 item =
     (let tokenName = terminal item;
          st = st0\<lparr> lastPosition :=
                 (case yylloc item of None \<Rightarrow> lastPosition st0 | Some loc \<Rightarrow> last_column loc) \<rparr>
      in
      if tokenName = Some ''OPEN_RAW_BLOCK'' \<or> tokenName = Some ''CLOSE_RAW_BLOCK''
           \<or> tokenName = Some ''END_RAW_BLOCK'' then st
      else if tokenName = Some ''OPEN'' \<or> tokenName = Some ''OPEN_UNESCAPED'' then
        open_expression Mustache st
      else if tokenName = Some ''OPEN_PARTIAL'' \<or> tokenName = Some ''OPEN_PARTIAL_BLOCK'' then
        open_expression Partial st
      else if tokenName = Some ''OPEN_BLOCK'' \<or> tokenName = Some ''OPEN_INVERSE''
           \<or> tokenName = Some ''OPEN_INVERSE_CHAIN'' then
        open_expression Block st
      else if tokenName = Some ''OPEN_ENDBLOCK'' then
        open_expression Endblock st
      else if tokenName = Some ''CLOSE'' \<or> tokenName = Some ''CLOSE_UNESCAPED'' then
        (case expressionType st of
           Some ty \<Rightarrow>
             st\<lparr> expressions := expressions st @
                    [\<lparr> etype = ty, etokens = tokens st,
                       helperName = map_option ttext (at (tokens st) 0) \<rparr>],
                 inExpression := False, tokens := [] \<rparr>
         | None \<Rightarrow> st\<lparr> inExpression := False, tokens := [] \<rparr>)
      else if inExpression st then
        st\<lparr> tokens := tokens st @ [\<lparr> tname = tokenName, ttext = yytext item \<rparr>] \<rparr>
      else st)"

record SegmentResult =
  seg_expressions :: "Expression list"
  consumed :: nat

text \<open>
  \<^verbatim>\<open>parseSegment\<close>: the scanner is reset on \<open>content\<close>; the loop runs over the terminals
  it yields; the \<^verbatim>\<open>catch\<close> branch returns \<open>lastPosition\<close> as \<open>consumed\<close>.
\<close>

definition parseSegment :: "scanner \<Rightarrow> string \<Rightarrow> SegmentResult" where
  "parseSegment lexer content =
     (case lexer content of
        (items, ending) \<Rightarrow>
          (let st = foldl parseSegment_step
                      \<lparr> expressions = [], lastPosition = 0, inExpression = False,
                        expressionType = None, tokens = [] \<rparr> items
           in \<lparr> seg_expressions = expressions st,
                consumed = (case ending of ReachedEOF \<Rightarrow> length content
                            | Threw \<Rightarrow> lastPosition st) \<rparr>))"

text \<open>
  The \<^verbatim>\<open>while\<close> loop of \<^verbatim>\<open>parseExpressions\<close>. Nothing in the loop bounds the number of
  turns, so the model is a partial function: \<open>None\<close> is a loop that never ends.
\<close>

partial_function (option) parseExpressions_loop ::
  "scanner \<Rightarrow> Expression list \<Rightarrow> string \<Rightarrow> Expression list option" where
  "parseExpressions_loop lexer exprs remaining =
     (if length remaining > 0 then
        (let result = parseSegment lexer remaining;
             exprs' = exprs @ seg_expressions result
         in if consumed result = length remaining then Some exprs'
            else (let afterError = drop (consumed result) remaining
                  in case search_open afterError of
                       None \<Rightarrow> Some exprs'
                     | Some nextOpen \<Rightarrow>
                         parseExpressions_loop lexer exprs' (drop nextOpen afterError)))
      else Some exprs)"

declare parseExpressions_loop.simps [code]

definition parseExpressions :: "scanner \<Rightarrow> string \<Rightarrow> Expression list option" where
  "parseExpressions lexer content = parseExpressions_loop lexer [] content"

subsection \<open>Variable extraction\<close>

text \<open>
  \<^verbatim>\<open>addVariable\<close>. \<open>hd path\<close> is \<^verbatim>\<open>path[0]\<close>: every call in the file is guarded by
  \<^verbatim>\<open>path.length > 0\<close> (lemma \<open>recordings_nonempty\<close> below).
\<close>

definition addVariable ::
  "string list \<Rightarrow> ExtractionContext \<Rightarrow> variable_map \<Rightarrow> string option \<Rightarrow> variable_map" where
  "addVariable path ctx vars bt =
     (let nm = hd path;
          contextInfo = (case (contextPrefix ctx, rootContext ctx) of
                           (Some prefix, Some root) \<Rightarrow>
                             if prefix \<noteq> [] \<and> root \<noteq> [] then Some (prefix, root) else None
                         | _ \<Rightarrow> None);
          fullPath = (case contextInfo of Some (prefix, root) \<Rightarrow> prefix @ join_dot path
                      | None \<Rightarrow> join_dot path);
          context = (case contextInfo of Some (prefix, root) \<Rightarrow> Some root | None \<Rightarrow> None)
      in if fullPath \<notin> fst ` set vars
         then vars @ [(fullPath, createVariable nm fullPath bt context)]
         else vars)"

function extractArguments ::
  "ExpressionToken list \<Rightarrow> nat \<Rightarrow> ExtractionContext \<Rightarrow> variable_map \<Rightarrow> variable_map" where
  "extractArguments toks i ctx vars =
     (if i < length toks then
        (let tok = toks ! i in
         if tname tok = Some ''OPEN_SEXPR'' \<or> tname tok = Some ''CLOSE_SEXPR'' then
           extractArguments toks (i + 1) ctx vars
         else if tname tok = Some ''DATA'' then extractArguments toks (i + 1) ctx vars
         else if 0 < i \<and> name_at toks (i - 1) = Some ''DATA'' then
           extractArguments toks (i + 1) ctx vars
         else if tname tok = Some ''EQUALS'' then extractArguments toks (i + 1) ctx vars
         else if tname tok = Some ''ID'' \<and> name_at toks (i + 1) = Some ''EQUALS'' then
           extractArguments toks (i + 1) ctx vars
         else if tname tok = Some ''ID'' \<and> \<not> isBuiltIn (ttext tok) then
           (if 0 < i \<and> name_at toks (i - 1) = Some ''OPEN_SEXPR'' then
              extractArguments toks (i + 1) ctx vars
            else
              (let argPath = collectPath toks i in
               if length argPath > 0 then
                 extractArguments toks (i + (length argPath * 2 - 2) + 1) ctx
                   (addVariable argPath ctx vars None)
               else extractArguments toks (i + 1) ctx vars))
         else extractArguments toks (i + 1) ctx vars)
      else vars)"
  by pat_completeness auto
termination
  by (relation "measure (\<lambda>(toks, i, ctx, vars). length toks - i)") auto

declare extractArguments.simps [simp del]

definition extractFromMustache ::
  "Expression \<Rightarrow> ExtractionContext \<Rightarrow> variable_map \<Rightarrow> variable_map" where
  "extractFromMustache expr ctx vars =
     (case etokens expr of
        [] \<Rightarrow> vars
      | first # _ \<Rightarrow>
          (if tname first = Some ''DATA'' then vars
           else if isBuiltIn (ttext first) then extractArguments (etokens expr) 1 ctx vars
           else
             (let path = collectPath (etokens expr) 0 in
              if length path > 0 then
                (let endIdx = length path * 2 - 1;
                     hasArguments = (case at (etokens expr) endIdx of None \<Rightarrow> False
                                     | Some nextTok \<Rightarrow> isArgumentToken nextTok)
                 in if hasArguments then extractArguments (etokens expr) endIdx ctx vars
                    else addVariable path ctx vars None)
              else vars)))"

text \<open>\<^verbatim>\<open>while (idx < tokens.length && tokens[idx].name !== 'ID') idx++\<close>\<close>

function skip_to_ID :: "ExpressionToken list \<Rightarrow> nat \<Rightarrow> nat" where
  "skip_to_ID toks idx =
     (if idx < length toks \<and> tname (toks ! idx) \<noteq> Some ''ID'' then skip_to_ID toks (idx + 1)
      else idx)"
  by pat_completeness auto
termination
  by (relation "measure (\<lambda>(toks, idx). length toks - idx)") auto

declare skip_to_ID.simps [simp del]

text \<open>
  The part that both built-in branches of \<^verbatim>\<open>extractFromBlock\<close> share when the first
  argument is not a subexpression: the variables after the call, and the collected path
  (\<open>None\<close> when no identifier follows the helper).
\<close>

definition block_argument ::
  "ExpressionToken list \<Rightarrow> string option \<Rightarrow> ExtractionContext \<Rightarrow> variable_map
     \<Rightarrow> variable_map \<times> string list option" where
  "block_argument toks firstName ctx vars =
     (let idx = skip_to_ID toks 1 in
      if idx < length toks then
        (let argPath = collectPath toks idx in
         (if length argPath > 0 \<and> \<not> isBuiltIn (hd argPath)
          then addVariable argPath ctx vars firstName else vars,
          Some argPath))
      else (vars, None))"

text \<open>The result is the variables after the call and the frame that the function returns.\<close>

definition extractFromBlock ::
  "Expression \<Rightarrow> ExtractionContext \<Rightarrow> variable_map \<Rightarrow> variable_map \<times> BlockFrame" where
  "extractFromBlock expr ctx vars =
     (let toks = etokens expr;
          firstName = map_option ttext (at toks 0)
      in
      if (case firstName of None \<Rightarrow> False | Some f \<Rightarrow> f \<in> CONTEXT_HELPERS) then
        (if name_at toks 1 = Some ''OPEN_SEXPR'' then
           (extractArguments toks 1 ctx vars, \<lparr> helper = firstName, bcontext = [] \<rparr>)
         else
           (case block_argument toks firstName ctx vars of
              (vars', Some argPath) \<Rightarrow>
                (vars', \<lparr> helper = firstName,
                          bcontext = (case argPath of [] \<Rightarrow> [] | p # _ \<Rightarrow> p) \<rparr>)
            | (vars', None) \<Rightarrow> (vars', \<lparr> helper = firstName, bcontext = [] \<rparr>)))
      else if (case firstName of None \<Rightarrow> False | Some f \<Rightarrow> f \<in> BUILT_IN_HELPERS) then
        (if name_at toks 1 = Some ''OPEN_SEXPR'' then
           (extractArguments toks 1 ctx vars, \<lparr> helper = firstName, bcontext = [] \<rparr>)
         else
           (fst (block_argument toks firstName ctx vars),
            \<lparr> helper = firstName, bcontext = [] \<rparr>))
      else (vars, \<lparr> helper = firstName, bcontext = [] \<rparr>))"

text \<open>The \<^verbatim>\<open>while\<close> loop of \<^verbatim>\<open>extractFromPartial\<close>, which skips the partial's name.\<close>

function skip_partial_name :: "ExpressionToken list \<Rightarrow> nat \<Rightarrow> nat" where
  "skip_partial_name toks idx =
     (if idx < length toks \<and> (tname (toks ! idx) = Some ''SEP'' \<or> tname (toks ! idx) = Some ''ID'')
      then
        (if tname (toks ! idx) = Some ''ID'' \<and> \<not> (0 < idx \<and> name_at toks (idx - 1) = Some ''SEP'')
         then idx
         else skip_partial_name toks (idx + 1))
      else idx)"
  by pat_completeness auto
termination
  by (relation "measure (\<lambda>(toks, idx). length toks - idx)") auto

declare skip_partial_name.simps [simp del]

definition extractFromPartial ::
  "Expression \<Rightarrow> ExtractionContext \<Rightarrow> variable_map \<Rightarrow> variable_map" where
  "extractFromPartial expr ctx vars =
     extractArguments (etokens expr) (skip_partial_name (etokens expr) 1) ctx vars"

definition updateBlockStack :: "BlockFrame list \<Rightarrow> Expression \<Rightarrow> BlockFrame list" where
  "updateBlockStack stack expr =
     (if etype expr = Endblock then (if length stack > 0 then butlast stack else stack)
      else stack)"

definition make_context :: "BlockFrame list \<Rightarrow> ExtractionContext" where
  "make_context stack =
     (let contextInfo = computeContextPath stack in
      \<lparr> blockStack = stack,
        contextPrefix = map_option fst contextInfo,
        rootContext = map_option snd contextInfo \<rparr>)"

text \<open>
  The \<^verbatim>\<open>for\<close> loop of \<^verbatim>\<open>extractVariablesFromExpressions\<close>, on its two variables
  \<open>variables\<close> and \<open>blockStack\<close>.
\<close>

fun extractVariables_loop ::
  "Expression list \<Rightarrow> BlockFrame list \<Rightarrow> variable_map \<Rightarrow> variable_map" where
  "extractVariables_loop [] stack vars = vars"
| "extractVariables_loop (expr # rest) stack vars =
     (let ctx = make_context stack in
      case etype expr of
        Mustache \<Rightarrow> extractVariables_loop rest stack (extractFromMustache expr ctx vars)
      | Block \<Rightarrow>
          (case extractFromBlock expr ctx vars of
             (vars', frame) \<Rightarrow> extractVariables_loop rest (stack @ [frame]) vars')
      | Partial \<Rightarrow> extractVariables_loop rest stack (extractFromPartial expr ctx vars)
      | Endblock \<Rightarrow> extractVariables_loop rest (updateBlockStack stack expr) vars)"

definition extractVariablesFromExpressions :: "Expression list \<Rightarrow> ExtractedVariable list" where
  "extractVariablesFromExpressions exprs = map snd (extractVariables_loop exprs [] [])"

subsection \<open>Public API\<close>

text \<open>
  \<^verbatim>\<open>extract\<close> (primed: the unprimed word is reserved in Isabelle). \<open>None\<close> is a call
  that does not return.
\<close>

definition extract' :: "scanner \<Rightarrow> string \<Rightarrow> ExtractionResult option" where
  "extract' lexer content =
     (case parseExpressions lexer content of
        None \<Rightarrow> None
      | Some exprs \<Rightarrow>
          (let vs = extractVariablesFromExpressions exprs in
           Some \<lparr> variables = vs,
                  rootVariables = new_Set (map vname (filter (\<lambda>v. \<not> truthy (vcontext v)) vs)) \<rparr>))"

text \<open>
  \<^verbatim>\<open>interpolate\<close> hands the template to the Handlebars engine, which is outside the
  repository: \<open>engine helpers content data\<close> stands for
  \<^verbatim>\<open>hbs.compile(content)(variables)\<close>, on the shared instance when \<^verbatim>\<open>options?.helpers\<close>
  is absent and on a fresh one with the helpers registered otherwise. It may throw
  (\<open>Inl\<close>).
\<close>

definition interpolate ::
  "('h option \<Rightarrow> string \<Rightarrow> 'd \<Rightarrow> 'e + string) \<Rightarrow> string \<Rightarrow> 'd option \<Rightarrow> 'h option
     \<Rightarrow> 'e + string" where
  "interpolate engine content vars helpers =
     (case vars of None \<Rightarrow> Inr content | Some d \<Rightarrow> engine helpers content d)"

section \<open>tokenizer.ts\<close>

subsection \<open>Types\<close>

text \<open>\<^verbatim>\<open>RawToken\<close> and \<^verbatim>\<open>NormalizedToken\<close> are the same interface.\<close>

record RawToken =
  tk_type :: string
  tk_text :: string
  tk_start :: nat
  tk_end :: nat

datatype context_type = InMustache | InBlockOpen | InBlockClose | InPartial

record ExpressionContext =
  ctype :: "context_type option"
  isInBlockParams :: bool
  pathRootAfterHelper :: bool

record AnnotatedToken = RawToken +
  tk_context :: ExpressionContext

datatype TokenType =
  Text | Variable | VariablePath | BlockKeyword | BlockParam | Helper | HelperArg
  | HashKey | HashValue | Literal | DataVar | SubexprParen | Comment | Raw | Brace

record HighlightToken =
  htype :: TokenType
  hvalue :: string
  hstart :: nat
  hend :: nat

subsection \<open>Predicate sets and the static token map\<close>

definition BLOCK_OPENERS :: "string set" where
  "BLOCK_OPENERS = {''OPEN_BLOCK'', ''OPEN_INVERSE'', ''OPEN_INVERSE_CHAIN'', ''OPEN_ENDBLOCK''}"

definition MUSTACHE_OPENERS :: "string set" where
  "MUSTACHE_OPENERS = {''OPEN'', ''OPEN_UNESCAPED''}"

definition PARTIAL_OPENERS :: "string set" where
  "PARTIAL_OPENERS = {''OPEN_PARTIAL'', ''OPEN_PARTIAL_BLOCK''}"

definition EXPRESSION_OPENERS :: "string set" where
  "EXPRESSION_OPENERS =
     {''OPEN'', ''OPEN_UNESCAPED'', ''OPEN_BLOCK'', ''OPEN_INVERSE'', ''OPEN_INVERSE_CHAIN'',
      ''OPEN_ENDBLOCK'', ''OPEN_PARTIAL'', ''OPEN_PARTIAL_BLOCK''}"

definition EXPRESSION_CLOSERS :: "string set" where
  "EXPRESSION_CLOSERS = {''CLOSE'', ''CLOSE_UNESCAPED'', ''CLOSE_RAW_BLOCK'', ''END_RAW_BLOCK''}"

definition ARGUMENT_TYPES :: "string set" where
  "ARGUMENT_TYPES =
     {''ID'', ''STRING'', ''NUMBER'', ''BOOLEAN'', ''DATA'', ''OPEN_SEXPR'', ''UNDEFINED'', ''NULL''}"

definition isBlockOpener :: "string \<Rightarrow> bool" where
  "isBlockOpener ty = (ty \<in> BLOCK_OPENERS)"

definition isMustacheOpener :: "string \<Rightarrow> bool" where
  "isMustacheOpener ty = (ty \<in> MUSTACHE_OPENERS)"

definition isPartialOpener :: "string \<Rightarrow> bool" where
  "isPartialOpener ty = (ty \<in> PARTIAL_OPENERS)"

definition isExpressionOpener :: "string \<Rightarrow> bool" where
  "isExpressionOpener ty = (ty \<in> EXPRESSION_OPENERS)"

definition isExpressionCloser :: "string \<Rightarrow> bool" where
  "isExpressionCloser ty = (ty \<in> EXPRESSION_CLOSERS)"

definition isArgumentType :: "string \<Rightarrow> bool" where
  "isArgumentType ty = (ty \<in> ARGUMENT_TYPES)"

definition TOKEN_MAP :: "string \<Rightarrow> TokenType option" where
  "TOKEN_MAP = map_of
     [(''CONTENT'', Text), (''COMMENT'', Comment), (''OPEN'', Brace), (''CLOSE'', Brace),
      (''OPEN_UNESCAPED'', Brace), (''CLOSE_UNESCAPED'', Brace), (''OPEN_RAW_BLOCK'', Brace),
      (''CLOSE_RAW_BLOCK'', Brace), (''END_RAW_BLOCK'', Brace), (''OPEN_BLOCK'', Brace),
      (''OPEN_INVERSE'', Brace), (''OPEN_INVERSE_CHAIN'', Brace), (''OPEN_ENDBLOCK'', Brace),
      (''OPEN_PARTIAL'', Brace), (''OPEN_PARTIAL_BLOCK'', Brace),
      (''OPEN_SEXPR'', SubexprParen), (''CLOSE_SEXPR'', SubexprParen),
      (''OPEN_BLOCK_PARAMS'', BlockKeyword), (''CLOSE_BLOCK_PARAMS'', BlockKeyword),
      (''INVERSE'', BlockKeyword), (''ID'', Variable), (''STRING'', Literal),
      (''NUMBER'', Literal), (''BOOLEAN'', Literal), (''UNDEFINED'', Literal),
      (''NULL'', Literal), (''DATA'', DataVar), (''SEP'', Brace), (''EQUALS'', Brace)]"

subsection \<open>Stage 1: lexer tokenization\<close>

text \<open>\<^verbatim>\<open>content.split('\n')\<close>: never empty, one more line than there are newlines.\<close>

fun split_nl :: "string \<Rightarrow> string list" where
  "split_nl [] = [[]]"
| "split_nl (c # cs) =
     (if c = CHR 0x0A then [] # split_nl cs
      else (case split_nl cs of [] \<Rightarrow> [[c]] | l # ls \<Rightarrow> (c # l) # ls))"

text \<open>
  The loop of \<^verbatim>\<open>locToOffset\<close> runs over the lines \<open>i < line - 1\<close>, \<open>i < lines.length\<close>.
\<close>

definition locToOffset :: "string list \<Rightarrow> nat \<Rightarrow> nat \<Rightarrow> nat" where
  "locToOffset lines line column =
     foldl (\<lambda>offset l. offset + (length l + 1)) 0 (take (line - 1) lines) + column"

text \<open>
  The loop of \<^verbatim>\<open>lexerTokenize\<close> over the terminals that the scanner returned. Reading
  \<^verbatim>\<open>loc.first_line\<close> of an undefined \<^verbatim>\<open>yylloc\<close> throws inside the \<^verbatim>\<open>try\<close>, which ends
  the loop with the tokens pushed so far, as a throw of \<^verbatim>\<open>lex()\<close> does.
\<close>

fun lexerTokenize_loop :: "string list \<Rightarrow> lex_item list \<Rightarrow> RawToken list" where
  "lexerTokenize_loop lines [] = []"
| "lexerTokenize_loop lines (item # rest) =
     (case yylloc item of
        None \<Rightarrow> []
      | Some loc \<Rightarrow>
          \<lparr> tk_type = (case terminal item of None \<Rightarrow> ''UNKNOWN''
                       | Some n \<Rightarrow> if n = [] then ''UNKNOWN'' else n),
            tk_text = yytext item,
            tk_start = locToOffset lines (first_line loc) (first_column loc),
            tk_end = locToOffset lines (last_line loc) (last_column loc) \<rparr>
          # lexerTokenize_loop lines rest)"

definition lexerTokenize :: "scanner \<Rightarrow> string \<Rightarrow> RawToken list" where
  "lexerTokenize lexer content = lexerTokenize_loop (split_nl content) (fst (lexer content))"

subsection \<open>Stage 2: normalize tokens\<close>

definition normalizeToken :: "RawToken \<Rightarrow> RawToken" where
  "normalizeToken token =
     (if tk_type token = ''ID'' \<and> tk_text token = ''.'' then token\<lparr> tk_type := ''SEP'' \<rparr>
      else if tk_type token = ''ID'' \<and> tk_text token = ''='' then token\<lparr> tk_type := ''EQUALS'' \<rparr>
      else token)"

definition normalizeTokens :: "RawToken list \<Rightarrow> RawToken list" where
  "normalizeTokens toks = map normalizeToken toks"

subsection \<open>Stage 3: annotate context\<close>

record annotate_state =
  a_expressionType :: "context_type option"
  a_isInBlockParams :: bool
  helperSeen :: bool
  pathDepth :: nat

text \<open>
  The inner loop \<^verbatim>\<open>for (let j = i - 1; j >= 0; j--)\<close>, on the tokens annotated so far in
  reverse order: the head is index \<open>j\<close>, the next one is \<^verbatim>\<open>tokens[j - 1]\<close>.
\<close>

fun find_path_root :: "AnnotatedToken list \<Rightarrow> bool" where
  "find_path_root [] = False"
| "find_path_root (a # older) =
     (if tk_type a = ''ID''
         \<and> (case older of [] \<Rightarrow> True
             | prevPrev # _ \<Rightarrow> tk_type prevPrev \<noteq> ''SEP'' \<and> tk_type prevPrev \<noteq> ''DATA'')
      then pathRootAfterHelper (tk_context a)
      else find_path_root older)"

text \<open>\<^verbatim>\<open>prev?.type !== ty\<close>, where \<open>prev\<close> is the last token annotated so far.\<close>

definition prev_type_is_not :: "AnnotatedToken list \<Rightarrow> string \<Rightarrow> bool" where
  "prev_type_is_not result ty = (case rev result of [] \<Rightarrow> True | prev # _ \<Rightarrow> tk_type prev \<noteq> ty)"

text \<open>
  One turn of the outer loop, in the order of the source. First the three updates of the
  state before the token is annotated: expression boundaries, block parameters, and the
  path depth.
\<close>

definition track_boundaries :: "annotate_state \<Rightarrow> string \<Rightarrow> annotate_state" where
  "track_boundaries st ty =
     (if isExpressionOpener ty then
        st\<lparr> a_expressionType :=
               (if isBlockOpener ty then
                  Some (if ty = ''OPEN_ENDBLOCK'' then InBlockClose else InBlockOpen)
                else if isPartialOpener ty then Some InPartial
                else if isMustacheOpener ty then Some InMustache
                else a_expressionType st),
             helperSeen := False, pathDepth := 0 \<rparr>
      else if isExpressionCloser ty then
        st\<lparr> a_expressionType := None, helperSeen := False, pathDepth := 0 \<rparr>
      else st)"

definition track_block_params :: "annotate_state \<Rightarrow> string \<Rightarrow> annotate_state" where
  "track_block_params st ty =
     (if ty = ''OPEN_BLOCK_PARAMS'' then st\<lparr> a_isInBlockParams := True \<rparr>
      else if ty = ''CLOSE_BLOCK_PARAMS'' then st\<lparr> a_isInBlockParams := False \<rparr>
      else st)"

definition track_path ::
  "annotate_state \<Rightarrow> AnnotatedToken list \<Rightarrow> string \<Rightarrow> annotate_state" where
  "track_path st result ty =
     (if ty = ''SEP'' then st\<lparr> pathDepth := pathDepth st + 1 \<rparr>
      else if ty = ''ID'' \<and> prev_type_is_not result ''SEP'' \<and> prev_type_is_not result ''DATA''
      then st\<lparr> pathDepth := 0 \<rparr>
      else st)"

text \<open>The value of \<^verbatim>\<open>pathRootAfterHelper\<close> for the token.\<close>

definition path_root_after_helper ::
  "annotate_state \<Rightarrow> AnnotatedToken list \<Rightarrow> string \<Rightarrow> bool" where
  "path_root_after_helper st result ty =
     (if ty = ''ID'' then
        (if pathDepth st = 0 then helperSeen st else find_path_root (rev result))
      else False)"

text \<open>The update of \<^verbatim>\<open>helperSeen\<close> after the token is pushed.\<close>

definition mark_helper_seen ::
  "annotate_state \<Rightarrow> AnnotatedToken list \<Rightarrow> string \<Rightarrow> annotate_state" where
  "mark_helper_seen st result ty =
     (if ty = ''ID'' \<and> pathDepth st = 0 \<and> \<not> a_isInBlockParams st
         \<and> prev_type_is_not result ''EQUALS'' \<and> prev_type_is_not result ''DATA''
      then st\<lparr> helperSeen := True \<rparr> else st)"

text \<open>The turn: the new state and the annotated token.\<close>

definition annotate_step ::
  "annotate_state \<Rightarrow> AnnotatedToken list \<Rightarrow> RawToken \<Rightarrow> annotate_state \<times> AnnotatedToken" where
  "annotate_step st0 result token =
     (let ty = tk_type token;
          st = track_path (track_block_params (track_boundaries st0 ty) ty) result ty;
          annotated = \<lparr> tk_type = ty, tk_text = tk_text token, tk_start = tk_start token,
                        tk_end = tk_end token,
                        tk_context = \<lparr> ctype = a_expressionType st,
                                       isInBlockParams = a_isInBlockParams st,
                                       pathRootAfterHelper = path_root_after_helper st result ty \<rparr> \<rparr>
      in (mark_helper_seen st result ty, annotated))"

fun annotate_loop ::
  "annotate_state \<Rightarrow> AnnotatedToken list \<Rightarrow> RawToken list \<Rightarrow> AnnotatedToken list" where
  "annotate_loop st result [] = result"
| "annotate_loop st result (token # rest) =
     (case annotate_step st result token of
        (st', annotated) \<Rightarrow> annotate_loop st' (result @ [annotated]) rest)"

definition annotateContext :: "RawToken list \<Rightarrow> AnnotatedToken list" where
  "annotateContext toks =
     annotate_loop \<lparr> a_expressionType = None, a_isInBlockParams = False,
                     helperSeen = False, pathDepth = 0 \<rparr> [] toks"

subsection \<open>Stage 4: classify tokens\<close>

text \<open>\<^verbatim>\<open>tok?.type === ty\<close> and \<^verbatim>\<open>pred(tok?.type ?? '')\<close> for an optional neighbour.\<close>

definition type_is :: "AnnotatedToken option \<Rightarrow> string \<Rightarrow> bool" where
  "type_is tok ty = (case tok of None \<Rightarrow> False | Some t \<Rightarrow> tk_type t = ty)"

definition type_or_empty :: "AnnotatedToken option \<Rightarrow> string" where
  "type_or_empty tok = (case tok of None \<Rightarrow> [] | Some t \<Rightarrow> tk_type t)"

definition classifyByExpressionContext ::
  "AnnotatedToken \<Rightarrow> AnnotatedToken option \<Rightarrow> AnnotatedToken option \<Rightarrow> TokenType" where
  "classifyByExpressionContext token prev next =
     (let c = ctype (tk_context token) in
      if c = Some InBlockOpen \<or> c = Some InBlockClose then
        (if isBlockOpener (type_or_empty prev) then BlockKeyword else HelperArg)
      else if c = Some InPartial then
        (if isPartialOpener (type_or_empty prev) then Helper else HelperArg)
      else if type_is prev ''OPEN_SEXPR'' then Helper
      else if c = Some InMustache then
        (if isMustacheOpener (type_or_empty prev) then
           (if type_is next ''SEP'' then Variable
            else if (case next of None \<Rightarrow> False | Some n \<Rightarrow> isArgumentType (tk_type n))
            then Helper
            else Variable)
         else HelperArg)
      else Variable)"

definition classifyIdToken ::
  "AnnotatedToken \<Rightarrow> AnnotatedToken option \<Rightarrow> AnnotatedToken option \<Rightarrow> TokenType" where
  "classifyIdToken token prev next =
     (if tk_text token = ''this'' then DataVar
      else if isInBlockParams (tk_context token) then BlockParam
      else if type_is next ''EQUALS'' then HashKey
      else if type_is prev ''EQUALS'' then HashValue
      else if type_is prev ''DATA'' then DataVar
      else if type_is prev ''SEP'' then
        (if pathRootAfterHelper (tk_context token) then HelperArg else VariablePath)
      else classifyByExpressionContext token prev next)"

text \<open>
  \<^verbatim>\<open>tokens.map((token, i) => ...)\<close> with \<^verbatim>\<open>tokens[i - 1]\<close> carried along and
  \<^verbatim>\<open>tokens[i + 1]\<close> read from the rest.
\<close>

fun classify_loop ::
  "AnnotatedToken option \<Rightarrow> AnnotatedToken list \<Rightarrow> (AnnotatedToken \<times> TokenType) list" where
  "classify_loop prev [] = []"
| "classify_loop prev (token # rest) =
     (token,
      if tk_type token = ''ID'' then classifyIdToken token prev (at rest 0)
      else (case TOKEN_MAP (tk_type token) of None \<Rightarrow> Text | Some h \<Rightarrow> h))
     # classify_loop (Some token) rest"

definition classifyTokens :: "AnnotatedToken list \<Rightarrow> (AnnotatedToken \<times> TokenType) list" where
  "classifyTokens toks = classify_loop None toks"

subsection \<open>Stage 5: build output\<close>

text \<open>\<^verbatim>\<open>content.slice(a, b)\<close> for offsets that are not negative.\<close>

definition slice :: "string \<Rightarrow> nat \<Rightarrow> nat \<Rightarrow> string" where
  "slice content a b = take (b - a) (drop a content)"

definition span :: "TokenType \<Rightarrow> string \<Rightarrow> nat \<Rightarrow> nat \<Rightarrow> HighlightToken" where
  "span ty content a b = \<lparr> htype = ty, hvalue = slice content a b, hstart = a, hend = b \<rparr>"

text \<open>\<^verbatim>\<open>if (token.start > pos) result.push(...)\<close>: the gap before a token.\<close>

definition gap_before :: "string \<Rightarrow> nat \<Rightarrow> AnnotatedToken \<Rightarrow> HighlightToken list" where
  "gap_before content pos token =
     (if tk_start token > pos then [span Text content pos (tk_start token)] else [])"

text \<open>
  The loop of \<^verbatim>\<open>buildOutput\<close> with its cursor \<open>pos\<close>. The first equation is the gap
  after the last token; the second is a last token, for which \<^verbatim>\<open>classified[i + 1]\<close> is
  undefined; in the third the merge of \<^verbatim>\<open>DATA\<close> with an adjacent \<^verbatim>\<open>ID\<close> skips the
  next token.
\<close>

fun buildOutput_loop ::
  "string \<Rightarrow> nat \<Rightarrow> (AnnotatedToken \<times> TokenType) list \<Rightarrow> HighlightToken list" where
  "buildOutput_loop content pos [] =
     (if pos < length content then [span Text content pos (length content)] else [])"
| "buildOutput_loop content pos [(token, highlightType)] =
     gap_before content pos token
       @ span highlightType content (tk_start token) (tk_end token)
       # buildOutput_loop content (tk_end token) []"
| "buildOutput_loop content pos ((token, highlightType) # (nextTok, nextType) # rest) =
     (if tk_type token = ''DATA'' \<and> tk_type nextTok = ''ID'' \<and> tk_start nextTok = tk_end token
      then
        gap_before content pos token
          @ span DataVar content (tk_start token) (tk_end nextTok)
          # buildOutput_loop content (tk_end nextTok) rest
      else
        gap_before content pos token
          @ span highlightType content (tk_start token) (tk_end token)
          # buildOutput_loop content (tk_end token) ((nextTok, nextType) # rest))"

definition buildOutput ::
  "string \<Rightarrow> (AnnotatedToken \<times> TokenType) list \<Rightarrow> HighlightToken list" where
  "buildOutput content classified = buildOutput_loop content 0 classified"

subsection \<open>Main pipeline\<close>

definition tokenize :: "scanner \<Rightarrow> string \<Rightarrow> HighlightToken list" where
  "tokenize lexer content =
     (if content = [] then []
      else
        (let rawTokens = lexerTokenize lexer content;
             normalizedTokens = normalizeTokens rawTokens;
             annotatedTokens = annotateContext normalizedTokens;
             classifiedTokens = classifyTokens annotatedTokens;
             result = buildOutput content classifiedTokens
         in filter (\<lambda>t. length (hvalue t) > 0) result))"

section \<open>Notions used in the properties\<close>

subsection \<open>Scanner runs of the scenarios\<close>

text \<open>
  The terminals that the Handlebars scanner yields on the three templates of the
  scenarios, each with its text and its columns on line 1. After the last terminal the
  scanner may also yield its \<^verbatim>\<open>EOF\<close> terminal (which is not the \<^verbatim>\<open>lexer.EOF\<close> value that
  ends the loops) as an empty terminal at the end of the input; the scenarios allow both.
\<close>

definition terminal_at :: "string \<Rightarrow> string \<Rightarrow> nat \<Rightarrow> nat \<Rightarrow> lex_item" where
  "terminal_at nm txt a b =
     \<lparr> terminal = Some nm, yytext = txt,
       yylloc = Some \<lparr> first_line = 1, first_column = a, last_line = 1, last_column = b \<rparr> \<rparr>"

definition user_name_terminals :: "lex_item list" where
  "user_name_terminals =
     [terminal_at ''OPEN'' ''{{'' 0 2, terminal_at ''ID'' ''user'' 2 6,
      terminal_at ''SEP'' ''.'' 6 7, terminal_at ''ID'' ''name'' 7 11,
      terminal_at ''CLOSE'' ''}}'' 11 13]"

definition each_items_terminals :: "lex_item list" where
  "each_items_terminals =
     [terminal_at ''OPEN_BLOCK'' ''{{#'' 0 3, terminal_at ''ID'' ''each'' 3 7,
      terminal_at ''ID'' ''items'' 8 13, terminal_at ''CLOSE'' ''}}'' 13 15,
      terminal_at ''OPEN'' ''{{'' 15 17, terminal_at ''ID'' ''name'' 17 21,
      terminal_at ''CLOSE'' ''}}'' 21 23, terminal_at ''OPEN_ENDBLOCK'' ''{{/'' 23 26,
      terminal_at ''ID'' ''each'' 26 30, terminal_at ''CLOSE'' ''}}'' 30 32]"

definition name_and_name_terminals :: "lex_item list" where
  "name_and_name_terminals =
     [terminal_at ''OPEN'' ''{{'' 0 2, terminal_at ''ID'' ''name'' 2 6,
      terminal_at ''CLOSE'' ''}}'' 6 8, terminal_at ''CONTENT'' '' and '' 8 13,
      terminal_at ''OPEN'' ''{{'' 13 15, terminal_at ''ID'' ''name'' 15 19,
      terminal_at ''CLOSE'' ''}}'' 19 21]"

text \<open>A scanner \<open>lexer\<close> yields the terminals \<open>ts\<close> on \<open>content\<close> and reaches the end.\<close>

definition yields :: "scanner \<Rightarrow> string \<Rightarrow> lex_item list \<Rightarrow> bool" where
  "yields lexer content ts =
     (lexer content = (ts, ReachedEOF)
      \<or> lexer content =
           (ts @ [terminal_at ''EOF'' [] (length content) (length content)], ReachedEOF))"

subsection \<open>The calls of \<^verbatim>\<open>addVariable\<close>\<close>

text \<open>
  A recording is one call of \<^verbatim>\<open>addVariable\<close>: the collected path, the extraction context
  and the block type. \<open>scope_of\<close> is the \<^verbatim>\<open>contextInfo\<close> of the call, \<open>recorded_path\<close> its
  \<^verbatim>\<open>fullPath\<close>, \<open>recorded_variable\<close> the entry that the call stores when the path is new.
\<close>

type_synonym recording = "string list \<times> ExtractionContext \<times> string option"

definition scope_of :: "ExtractionContext \<Rightarrow> (string \<times> string) option" where
  "scope_of ctx =
     (case (contextPrefix ctx, rootContext ctx) of
        (Some prefix, Some root) \<Rightarrow>
          if prefix \<noteq> [] \<and> root \<noteq> [] then Some (prefix, root) else None
      | _ \<Rightarrow> None)"

definition recorded_path :: "recording \<Rightarrow> string" where
  "recorded_path r =
     (case r of (path, ctx, bt) \<Rightarrow>
        (case scope_of ctx of Some (prefix, root) \<Rightarrow> prefix @ join_dot path
         | None \<Rightarrow> join_dot path))"

definition recorded_variable :: "recording \<Rightarrow> ExtractedVariable" where
  "recorded_variable r =
     (case r of (path, ctx, bt) \<Rightarrow>
        createVariable (hd path) (recorded_path r) bt (map_option snd (scope_of ctx)))"

definition record_call :: "variable_map \<Rightarrow> recording \<Rightarrow> variable_map" where
  "record_call vars r = (case r of (path, ctx, bt) \<Rightarrow> addVariable path ctx vars bt)"

text \<open>
  The walk of the extraction functions does not read the variables collected so far, so
  the calls that a function makes are a function of the tokens alone. The definitions below
  follow the extraction functions branch by branch and return the arguments of their
  \<^verbatim>\<open>addVariable\<close> calls in call order (lemma \<open>extractVariables_loop_recordings\<close>).
\<close>

definition argument_at :: "ExpressionToken list \<Rightarrow> nat \<Rightarrow> string list option" where
  "argument_at toks i =
     (let tok = toks ! i in
      if tname tok = Some ''OPEN_SEXPR'' \<or> tname tok = Some ''CLOSE_SEXPR'' then None
      else if tname tok = Some ''DATA'' then None
      else if 0 < i \<and> name_at toks (i - 1) = Some ''DATA'' then None
      else if tname tok = Some ''EQUALS'' then None
      else if tname tok = Some ''ID'' \<and> name_at toks (i + 1) = Some ''EQUALS'' then None
      else if tname tok = Some ''ID'' \<and> \<not> isBuiltIn (ttext tok) then
        (if 0 < i \<and> name_at toks (i - 1) = Some ''OPEN_SEXPR'' then None
         else (let argPath = collectPath toks i in
               if length argPath > 0 then Some argPath else None))
      else None)"

function extractArguments_calls :: "ExpressionToken list \<Rightarrow> nat \<Rightarrow> string list list" where
  "extractArguments_calls toks i =
     (if i < length toks then
        (case argument_at toks i of
           None \<Rightarrow> extractArguments_calls toks (i + 1)
         | Some argPath \<Rightarrow>
             argPath # extractArguments_calls toks (i + (length argPath * 2 - 2) + 1))
      else [])"
  by pat_completeness auto
termination
  by (relation "measure (\<lambda>(toks, i). length toks - i)") auto

declare extractArguments_calls.simps [simp del]

definition extractFromMustache_calls :: "Expression \<Rightarrow> string list list" where
  "extractFromMustache_calls expr =
     (case etokens expr of
        [] \<Rightarrow> []
      | first # _ \<Rightarrow>
          (if tname first = Some ''DATA'' then []
           else if isBuiltIn (ttext first) then extractArguments_calls (etokens expr) 1
           else
             (let path = collectPath (etokens expr) 0 in
              if length path > 0 then
                (let endIdx = length path * 2 - 1;
                     hasArguments = (case at (etokens expr) endIdx of None \<Rightarrow> False
                                     | Some nextTok \<Rightarrow> isArgumentToken nextTok)
                 in if hasArguments then extractArguments_calls (etokens expr) endIdx
                    else [path])
              else [])))"

definition block_argument_calls :: "ExpressionToken list \<Rightarrow> string list list" where
  "block_argument_calls toks =
     (let idx = skip_to_ID toks 1 in
      if idx < length toks then
        (let argPath = collectPath toks idx in
         if length argPath > 0 \<and> \<not> isBuiltIn (hd argPath) then [argPath] else [])
      else [])"

definition extractFromBlock_calls :: "Expression \<Rightarrow> (string list \<times> string option) list" where
  "extractFromBlock_calls expr =
     (let toks = etokens expr;
          firstName = map_option ttext (at toks 0)
      in
      if (case firstName of None \<Rightarrow> False | Some f \<Rightarrow> f \<in> BUILT_IN_HELPERS) then
        (if name_at toks 1 = Some ''OPEN_SEXPR''
         then map (\<lambda>p. (p, None)) (extractArguments_calls toks 1)
         else map (\<lambda>p. (p, firstName)) (block_argument_calls toks))
      else [])"

definition extractFromPartial_calls :: "Expression \<Rightarrow> string list list" where
  "extractFromPartial_calls expr =
     extractArguments_calls (etokens expr) (skip_partial_name (etokens expr) 1)"

definition expression_calls :: "Expression \<Rightarrow> (string list \<times> string option) list" where
  "expression_calls expr =
     (case etype expr of
        Mustache \<Rightarrow> map (\<lambda>p. (p, None)) (extractFromMustache_calls expr)
      | Block \<Rightarrow> extractFromBlock_calls expr
      | Partial \<Rightarrow> map (\<lambda>p. (p, None)) (extractFromPartial_calls expr)
      | Endblock \<Rightarrow> [])"

text \<open>The block stack after an expression, as the loop of the extraction updates it.\<close>

definition next_stack :: "BlockFrame list \<Rightarrow> Expression \<Rightarrow> BlockFrame list" where
  "next_stack stack expr =
     (case etype expr of
        Block \<Rightarrow> stack @ [snd (extractFromBlock expr (make_context stack) [])]
      | Endblock \<Rightarrow> updateBlockStack stack expr
      | _ \<Rightarrow> stack)"

fun recordings :: "Expression list \<Rightarrow> BlockFrame list \<Rightarrow> recording list" where
  "recordings [] stack = []"
| "recordings (expr # rest) stack =
     map (\<lambda>(p, bt). (p, make_context stack, bt)) (expression_calls expr)
       @ recordings rest (next_stack stack expr)"

subsection \<open>Order of first occurrence\<close>

text \<open>The index of the first occurrence of \<open>x\<close> in \<open>xs\<close>, \<open>length xs\<close> when there is none.\<close>

definition first_index :: "'a list \<Rightarrow> 'a \<Rightarrow> nat" where
  "first_index xs x = length (takeWhile (\<lambda>y. y \<noteq> x) xs)"


subsection \<open>Scanners of the examples\<close>

text \<open>
  Constant scanners for the examples below: they yield the same run on every input. The
  last one fails before its first terminal, as a scanner does on a template that starts
  with a comment that is never closed.
\<close>

definition each_items_scanner :: scanner where
  "each_items_scanner = (\<lambda>_. (each_items_terminals, ReachedEOF))"

definition name_and_name_scanner :: scanner where
  "name_and_name_scanner = (\<lambda>_. (name_and_name_terminals, ReachedEOF))"

definition user_name_scanner :: scanner where
  "user_name_scanner = (\<lambda>_. (user_name_terminals, ReachedEOF))"

definition failing_scanner :: scanner where
  "failing_scanner = (\<lambda>_. ([], Threw))"

subsection \<open>Positions and partitions\<close>

text \<open>
  The line (from 1) and the column (from 0) of the offset \<open>k\<close> of \<open>content\<close>, with lines
  ended by the newline character: what a scanner that is exact about positions reports
  for an offset.
\<close>

definition line_of :: "string \<Rightarrow> nat \<Rightarrow> nat" where
  "line_of content k = Suc (length (filter (\<lambda>c. c = CHR 0x0A) (take k content)))"

definition column_of :: "string \<Rightarrow> nat \<Rightarrow> nat" where
  "column_of content k = length (takeWhile (\<lambda>c. c \<noteq> CHR 0x0A) (rev (take k content)))"

text \<open>The terminal \<open>item\<close> is reported at the offsets \<open>a\<close> to \<open>b\<close> of \<open>content\<close>.\<close>

definition located :: "string \<Rightarrow> lex_item \<Rightarrow> nat \<times> nat \<Rightarrow> bool" where
  "located content item sp =
     (case sp of (a, b) \<Rightarrow>
        yylloc item = Some \<lparr> first_line = line_of content a, first_column = column_of content a,
                             last_line = line_of content b, last_column = column_of content b \<rparr>)"

text \<open>Spans in increasing order from \<open>pos\<close>, without overlap, inside an input of length \<open>n\<close>.\<close>

fun ordered_spans :: "nat \<Rightarrow> nat \<Rightarrow> (nat \<times> nat) list \<Rightarrow> bool" where
  "ordered_spans n pos [] = True"
| "ordered_spans n pos ((a, b) # rest) = (pos \<le> a \<and> a \<le> b \<and> b \<le> n \<and> ordered_spans n b rest)"

text \<open>
  A run in which the terminals of the scanner on \<open>content\<close> lie at the offsets \<open>spans\<close>, in
  increasing order without overlap, and are reported with lines that end at the newline
  character only, which is how \<^verbatim>\<open>content.split('\n')\<close> counts them. Gaps between terminals
  and empty terminals are allowed, and the run may end by a throw. The Handlebars scanner
  also ends a line at a carriage return that no newline follows; its runs on inputs with
  such a character are not of this kind.
\<close>

definition reports_newline_offsets :: "scanner \<Rightarrow> string \<Rightarrow> (nat \<times> nat) list \<Rightarrow> bool" where
  "reports_newline_offsets lexer content spans =
     (list_all2 (located content) (fst (lexer content)) spans
      \<and> ordered_spans (length content) 0 spans)"

text \<open>
  The tokens are a contiguous partition of \<open>content\<close> from \<open>pos\<close> on: each starts where the
  one before ends, the first starts at \<open>pos\<close>, the last ends at the end of \<open>content\<close>, none is
  empty, and each value is the text of its range.
\<close>

fun contiguous_from :: "string \<Rightarrow> nat \<Rightarrow> HighlightToken list \<Rightarrow> bool" where
  "contiguous_from content pos [] = (pos = length content)"
| "contiguous_from content pos (t # ts) =
     (hstart t = pos \<and> hstart t < hend t \<and> hvalue t \<noteq> []
      \<and> hvalue t = slice content (hstart t) (hend t)
      \<and> contiguous_from content (hend t) ts)"

subsection \<open>A template with a lone carriage return\<close>

text \<open>
  The template \<^verbatim>\<open>{{a}}\r{{b}}\<close>, of 11 characters on one line for
  \<^verbatim>\<open>content.split('\n')\<close>, and the terminals that the Handlebars scanner yields on it: the
  scanner ends a line at the carriage return, so the text terminal ends at line 2,
  column 0, and the second expression is reported on line 2.
\<close>

definition terminal_on ::
  "string \<Rightarrow> string \<Rightarrow> nat \<times> nat \<Rightarrow> nat \<times> nat \<Rightarrow> lex_item" where
  "terminal_on nm txt from to =
     \<lparr> terminal = Some nm, yytext = txt,
       yylloc = Some \<lparr> first_line = fst from, first_column = snd from,
                        last_line = fst to, last_column = snd to \<rparr> \<rparr>"

definition lone_cr_template :: string where
  "lone_cr_template = ''{{a}}'' @ [CHR 0x0D] @ ''{{b}}''"

definition lone_cr_terminals :: "lex_item list" where
  "lone_cr_terminals =
     [terminal_on ''OPEN'' ''{{'' (1, 0) (1, 2), terminal_on ''ID'' ''a'' (1, 2) (1, 3),
      terminal_on ''CLOSE'' ''}}'' (1, 3) (1, 5),
      terminal_on ''CONTENT'' [CHR 0x0D] (1, 5) (2, 0),
      terminal_on ''OPEN'' ''{{'' (2, 0) (2, 2), terminal_on ''ID'' ''b'' (2, 2) (2, 3),
      terminal_on ''CLOSE'' ''}}'' (2, 3) (2, 5)]"

definition lone_cr_scanner :: scanner where
  "lone_cr_scanner = (\<lambda>_. (lone_cr_terminals, ReachedEOF))"

subsection \<open>Where a variable comes from\<close>




section \<open>Properties\<close>

subsection \<open>The scanner as a parameter\<close>

lemma tokenize_scan:
  "fst (lexer content) = ts \<Longrightarrow> tokenize lexer content = tokenize (\<lambda>_. (ts, ReachedEOF)) content"
  by (simp add: tokenize_def lexerTokenize_def)

lemma parseExpressions_eof:
  assumes "snd (lexer content) = ReachedEOF"
  shows "parseExpressions lexer content =
     Some (if content = [] then [] else seg_expressions (parseSegment lexer content))"
  using assms
  by (subst parseExpressions_def, subst parseExpressions_loop.simps)
     (auto simp: parseSegment_def Let_def split: prod.splits)

lemma extract_scan:
  assumes "lexer content = (ts, ReachedEOF)"
  shows "extract' lexer content = extract' (\<lambda>_. (ts, ReachedEOF)) content"
proof -
  have "parseSegment lexer content = parseSegment (\<lambda>_. (ts, ReachedEOF)) content"
    using assms by (simp add: parseSegment_def)
  then show ?thesis
    using assms by (simp add: extract'_def parseExpressions_eof)
qed

subsection \<open>Scenarios\<close>

text \<open>
  C8. \<^verbatim>\<open>tokenize('{{user.name}}')\<close> returns exactly five tokens: brace \<^verbatim>\<open>{{\<close>, variable
  \<^verbatim>\<open>user\<close>, brace \<^verbatim>\<open>.\<close>, variable-path \<^verbatim>\<open>name\<close> and brace \<^verbatim>\<open>}}\<close>, whenever the scanner
  yields \<^verbatim>\<open>OPEN ID SEP ID CLOSE\<close> on that template.
\<close>

theorem tokenize_user_name:
  assumes "yields lexer ''{{user.name}}'' user_name_terminals"
  shows "tokenize lexer ''{{user.name}}'' =
     [\<lparr>htype = Brace, hvalue = ''{{'', hstart = 0, hend = 2\<rparr>,
      \<lparr>htype = Variable, hvalue = ''user'', hstart = 2, hend = 6\<rparr>,
      \<lparr>htype = Brace, hvalue = ''.'', hstart = 6, hend = 7\<rparr>,
      \<lparr>htype = VariablePath, hvalue = ''name'', hstart = 7, hend = 11\<rparr>,
      \<lparr>htype = Brace, hvalue = ''}}'', hstart = 11, hend = 13\<rparr>]"
    (is "_ = ?out")
proof -
  have a: "tokenize (\<lambda>_. (user_name_terminals, ReachedEOF)) ''{{user.name}}'' = ?out"
    by code_simp
  have b: "tokenize (\<lambda>_. (user_name_terminals @ [terminal_at ''EOF'' [] 13 13], ReachedEOF))
             ''{{user.name}}'' = ?out"
    by code_simp
  have len: "length ''{{user.name}}'' = 13"
    by simp
  from assms [unfolded yields_def len]
  consider "fst (lexer ''{{user.name}}'') = user_name_terminals"
    | "fst (lexer ''{{user.name}}'') = user_name_terminals @ [terminal_at ''EOF'' [] 13 13]"
    by fastforce
  then show ?thesis
  proof cases
    case 1
    show ?thesis
      by (simp only: tokenize_scan [of lexer "''{{user.name}}''", OF 1] a)
  next
    case 2
    show ?thesis
      by (simp only: tokenize_scan [of lexer "''{{user.name}}''", OF 2] b)
  qed
qed

theorem tokenize_user_name_witness:
  "yields (\<lambda>_. (user_name_terminals, ReachedEOF)) ''{{user.name}}'' user_name_terminals
   \<and> map (\<lambda>t. (htype t, hvalue t))
         (tokenize (\<lambda>_. (user_name_terminals, ReachedEOF)) ''{{user.name}}'')
       = [(Brace, ''{{''), (Variable, ''user''), (Brace, ''.''), (VariablePath, ''name''),
          (Brace, ''}}'')]"
proof -
  have h: "yields (\<lambda>_. (user_name_terminals, ReachedEOF)) ''{{user.name}}'' user_name_terminals"
    by (simp add: yields_def)
  show ?thesis
    using h tokenize_user_name [OF h] by simp
qed

text \<open>
  C3. \<^verbatim>\<open>extract('{{#each items}}{{name}}{{/each}}')\<close> returns two variables: the block
  argument \<^verbatim>\<open>items\<close> and one entry with path \<^verbatim>\<open>items[].name\<close> and context \<^verbatim>\<open>items\<close>;
  \<^verbatim>\<open>rootVariables\<close> is \<^verbatim>\<open>["items"]\<close> and does not contain \<^verbatim>\<open>name\<close>.
\<close>

theorem extract_each_items:
  assumes "yields lexer ''{{#each items}}{{name}}{{/each}}'' each_items_terminals"
  shows "extract' lexer ''{{#each items}}{{name}}{{/each}}'' =
     Some \<lparr> variables =
              [\<lparr>vname = ''items'', vpath = ''items'', vtype = BlockVar,
                 blockType = Some ''each'', vcontext = None\<rparr>,
               \<lparr>vname = ''name'', vpath = ''items[].name'', vtype = Nested,
                 blockType = None, vcontext = Some ''items''\<rparr>],
            rootVariables = [''items''] \<rparr>"
    (is "_ = ?out")
proof -
  have a: "extract' (\<lambda>_. (each_items_terminals, ReachedEOF))
             ''{{#each items}}{{name}}{{/each}}'' = ?out"
    by code_simp
  have b: "extract' (\<lambda>_. (each_items_terminals @ [terminal_at ''EOF'' [] 32 32], ReachedEOF))
             ''{{#each items}}{{name}}{{/each}}'' = ?out"
    by code_simp
  have len: "length ''{{#each items}}{{name}}{{/each}}'' = 32"
    by simp
  from assms [unfolded yields_def len]
  consider "lexer ''{{#each items}}{{name}}{{/each}}'' = (each_items_terminals, ReachedEOF)"
    | "lexer ''{{#each items}}{{name}}{{/each}}''
         = (each_items_terminals @ [terminal_at ''EOF'' [] 32 32], ReachedEOF)"
    by blast
  then show ?thesis
  proof cases
    case 1
    show ?thesis
      by (simp only: extract_scan [of lexer "''{{#each items}}{{name}}{{/each}}''", OF 1] a)
  next
    case 2
    show ?thesis
      by (simp only: extract_scan [of lexer "''{{#each items}}{{name}}{{/each}}''", OF 2] b)
  qed
qed

theorem extract_each_items_witness:
  "yields (\<lambda>_. (each_items_terminals, ReachedEOF)) ''{{#each items}}{{name}}{{/each}}''
     each_items_terminals
   \<and> map_option rootVariables
         (extract' (\<lambda>_. (each_items_terminals, ReachedEOF)) ''{{#each items}}{{name}}{{/each}}'')
       = Some [''items'']
   \<and> map_option (\<lambda>r. map (\<lambda>v. (vpath v, vcontext v)) (variables r))
         (extract' (\<lambda>_. (each_items_terminals, ReachedEOF)) ''{{#each items}}{{name}}{{/each}}'')
       = Some [(''items'', None), (''items[].name'', Some ''items'')]"
proof -
  have h: "yields (\<lambda>_. (each_items_terminals, ReachedEOF)) ''{{#each items}}{{name}}{{/each}}''
             each_items_terminals"
    by (simp add: yields_def)
  show ?thesis
    using h extract_each_items [OF h] by simp
qed

subsection \<open>Interpolation\<close>

text \<open>
  C9. \<^verbatim>\<open>interpolate(content)\<close> without a \<^verbatim>\<open>variables\<close> argument returns \<open>content\<close>
  unchanged: the engine is not called and nothing is thrown.
\<close>

theorem interpolate_without_variables:
  "interpolate engine content None helpers = Inr content"
  by (simp add: interpolate_def)

subsection \<open>Extraction as a sequence of recordings\<close>

lemma record_call_eq:
  "record_call vars r =
     (if recorded_path r \<in> fst ` set vars then vars
      else vars @ [(recorded_path r, recorded_variable r)])"
  by (cases r)
     (auto simp: record_call_def addVariable_def recorded_path_def recorded_variable_def
        scope_of_def Let_def split: option.splits prod.splits)

lemma addVariable_record_call: "addVariable path ctx vars bt = record_call vars (path, ctx, bt)"
  by (simp add: record_call_def)

lemma extractArguments_step_none:
  assumes "i < length toks" "argument_at toks i = None"
  shows "extractArguments toks i ctx vars = extractArguments toks (i + 1) ctx vars"
  using assms
  by (subst extractArguments.simps) (auto simp: argument_at_def Let_def split: if_splits)

lemma extractArguments_step_some:
  assumes "i < length toks" "argument_at toks i = Some argPath"
  shows "extractArguments toks i ctx vars =
     extractArguments toks (i + (length argPath * 2 - 2) + 1) ctx (addVariable argPath ctx vars None)"
  using assms
  by (subst extractArguments.simps) (auto simp: argument_at_def Let_def split: if_splits)

lemma extractArguments_calls_eq:
  "extractArguments toks i ctx vars =
     foldl record_call vars (map (\<lambda>p. (p, ctx, None)) (extractArguments_calls toks i))"
proof (induction "length toks - i" arbitrary: i vars rule: less_induct)
  case less
  show ?case
  proof (cases "i < length toks")
    case False
    then show ?thesis
      by (subst extractArguments.simps, subst extractArguments_calls.simps) simp
  next
    case True
    show ?thesis
    proof (cases "argument_at toks i")
      case None
      have "length toks - (i + 1) < length toks - i"
        using True by simp
      from less [OF this]
      have "extractArguments toks (i + 1) ctx vars = foldl record_call vars
            (map (\<lambda>p. (p, ctx, None)) (extractArguments_calls toks (i + 1)))" .
      then show ?thesis
        using True None
        by (subst extractArguments_calls.simps) (simp add: extractArguments_step_none)
    next
      case (Some argPath)
      let ?j = "i + (length argPath * 2 - 2) + 1"
      have "length toks - ?j < length toks - i"
        using True by simp
      from less [OF this]
      have "extractArguments toks ?j ctx (addVariable argPath ctx vars None) =
          foldl record_call (addVariable argPath ctx vars None)
            (map (\<lambda>p. (p, ctx, None)) (extractArguments_calls toks ?j))" .
      then show ?thesis
        using True Some
        by (subst extractArguments_calls.simps)
           (simp add: extractArguments_step_some addVariable_record_call)
    qed
  qed
qed

lemma extractFromMustache_calls_eq:
  "extractFromMustache expr ctx vars =
     foldl record_call vars (map (\<lambda>p. (p, ctx, None)) (extractFromMustache_calls expr))"
  by (auto simp: extractFromMustache_def extractFromMustache_calls_def Let_def
        extractArguments_calls_eq addVariable_record_call split: list.splits option.splits)

lemma extractFromPartial_calls_eq:
  "extractFromPartial expr ctx vars =
     foldl record_call vars (map (\<lambda>p. (p, ctx, None)) (extractFromPartial_calls expr))"
  by (simp add: extractFromPartial_def extractFromPartial_calls_def extractArguments_calls_eq)

lemma block_argument_calls_eq:
  "fst (block_argument toks firstName ctx vars) =
     foldl record_call vars (map (\<lambda>p. (p, ctx, firstName)) (block_argument_calls toks))"
  by (auto simp: block_argument_def block_argument_calls_def Let_def addVariable_record_call)

lemma block_argument_snd:
  "snd (block_argument toks firstName ctx vars) = snd (block_argument toks firstName ctx [])"
  by (auto simp: block_argument_def Let_def)

lemma CONTEXT_HELPERS_built_in: "f \<in> CONTEXT_HELPERS \<Longrightarrow> f \<in> BUILT_IN_HELPERS"
  by (auto simp: CONTEXT_HELPERS_def BUILT_IN_HELPERS_def BLOCK_HELPER_NAMES_def)

lemma extractFromBlock_calls_eq:
  "fst (extractFromBlock expr ctx vars) =
     foldl record_call vars (map (\<lambda>(p, bt). (p, ctx, bt)) (extractFromBlock_calls expr))"
proof -
  have "fst (case block_argument toks firstName ctx vars of
          (vars', Some argPath) \<Rightarrow> (vars', f argPath)
        | (vars', None) \<Rightarrow> (vars', g)) = fst (block_argument toks firstName ctx vars)"
    for toks firstName f g
    by (auto split: prod.splits option.splits)
  then show ?thesis
    by (auto simp: extractFromBlock_def extractFromBlock_calls_def Let_def comp_def
        extractArguments_calls_eq block_argument_calls_eq CONTEXT_HELPERS_built_in
        split: option.splits)
qed

lemma extractFromBlock_frame:
  "snd (extractFromBlock expr ctx vars) = snd (extractFromBlock expr ctx [])"
proof -
  let ?toks = "etokens expr"
  let ?fn = "map_option ttext (at ?toks 0)"
  obtain v1 a1 where b1: "block_argument ?toks ?fn ctx vars = (v1, a1)"
    by (cases "block_argument ?toks ?fn ctx vars")
  obtain v2 a2 where b2: "block_argument ?toks ?fn ctx [] = (v2, a2)"
    by (cases "block_argument ?toks ?fn ctx []")
  have "a1 = a2"
    using block_argument_snd [of ?toks ?fn ctx vars] b1 b2 by simp
  then show ?thesis
    by (auto simp: extractFromBlock_def Let_def b1 b2 split: option.splits)
qed

lemma extractVariables_loop_recordings:
  "extractVariables_loop exprs stack vars = foldl record_call vars (recordings exprs stack)"
proof (induction exprs arbitrary: stack vars)
  case Nil
  show ?case by simp
next
  case (Cons expr rest)
  show ?case
  proof (cases "etype expr")
    case Mustache
    then show ?thesis
      by (simp add: Cons.IH expression_calls_def next_stack_def extractFromMustache_calls_eq comp_def)
  next
    case Block
    obtain vars' frame where e: "extractFromBlock expr (make_context stack) vars = (vars', frame)"
      by (cases "extractFromBlock expr (make_context stack) vars")
    have v: "vars' = foldl record_call vars
        (map (\<lambda>(p, bt). (p, make_context stack, bt)) (extractFromBlock_calls expr))"
      using extractFromBlock_calls_eq [of expr "make_context stack" vars] e by simp
    have f: "frame = snd (extractFromBlock expr (make_context stack) [])"
      using extractFromBlock_frame [of expr "make_context stack" vars] e by simp
    show ?thesis
      using Block e v f by (simp add: Cons.IH expression_calls_def next_stack_def)
  next
    case Endblock
    then show ?thesis
      by (simp add: Cons.IH expression_calls_def next_stack_def)
  next
    case Partial
    then show ?thesis
      by (simp add: Cons.IH expression_calls_def next_stack_def extractFromPartial_calls_eq comp_def)
  qed
qed

subsection \<open>What is recorded\<close>

lemma argument_at_nonempty: "argument_at toks i = Some p \<Longrightarrow> p \<noteq> []"
  by (auto simp: argument_at_def Let_def split: if_splits)

lemma extractArguments_calls_nonempty:
  "p \<in> set (extractArguments_calls toks i) \<Longrightarrow> p \<noteq> []"
proof (induction "length toks - i" arbitrary: i rule: less_induct)
  case less
  from less.prems have lt: "i < length toks"
    by (subst (asm) extractArguments_calls.simps) (simp split: if_splits)
  show ?case
  proof (cases "argument_at toks i")
    case None
    with less.prems lt have "p \<in> set (extractArguments_calls toks (i + 1))"
      by (subst (asm) extractArguments_calls.simps) simp
    moreover have "length toks - (i + 1) < length toks - i"
      using lt by simp
    ultimately show ?thesis
      using less.hyps by blast
  next
    case (Some q)
    let ?j = "i + (length q * 2 - 2) + 1"
    from Some less.prems lt have "p = q \<or> p \<in> set (extractArguments_calls toks ?j)"
      by (subst (asm) extractArguments_calls.simps) auto
    moreover have "length toks - ?j < length toks - i"
      using lt by simp
    ultimately show ?thesis
      using less.hyps Some argument_at_nonempty by blast
  qed
qed

lemma extractFromMustache_calls_nonempty:
  "p \<in> set (extractFromMustache_calls expr) \<Longrightarrow> p \<noteq> []"
  by (auto simp: extractFromMustache_calls_def Let_def
        dest: extractArguments_calls_nonempty split: list.splits if_splits option.splits)

lemma extractFromBlock_calls_props:
  assumes "(p, bt) \<in> set (extractFromBlock_calls expr)"
  shows "p \<noteq> [] \<and> (bt = None \<or> (\<exists>h\<in>BUILT_IN_HELPERS. bt = Some h))"
  using assms
  by (auto simp: extractFromBlock_calls_def block_argument_calls_def Let_def
        dest: extractArguments_calls_nonempty split: if_splits option.splits)

lemma expression_calls_props:
  assumes "(p, bt) \<in> set (expression_calls expr)"
  shows "p \<noteq> [] \<and> (bt = None \<or> (\<exists>h\<in>BUILT_IN_HELPERS. bt = Some h))"
proof (cases "etype expr")
  case Block
  then show ?thesis
    using assms extractFromBlock_calls_props [of p bt expr] by (simp add: expression_calls_def)
qed (use assms in \<open>auto simp: expression_calls_def extractFromPartial_calls_def
       dest: extractFromMustache_calls_nonempty extractArguments_calls_nonempty\<close>)

lemma recordings_props:
  assumes "(p, ctx, bt) \<in> set (recordings exprs stack)"
  shows "p \<noteq> [] \<and> (bt = None \<or> (\<exists>h\<in>BUILT_IN_HELPERS. bt = Some h))
         \<and> (\<exists>st. ctx = make_context st)"
  using assms
proof (induction exprs arbitrary: stack)
  case Nil
  then show ?case by simp
next
  case (Cons expr rest)
  from Cons.prems
  consider "(p, bt) \<in> set (expression_calls expr)" "ctx = make_context stack"
    | "(p, ctx, bt) \<in> set (recordings rest (next_stack stack expr))"
    by auto
  then show ?case
  proof cases
    case 1
    then show ?thesis
      using expression_calls_props [of p bt expr] by blast
  next
    case 2
    then show ?thesis
      using Cons.IH by blast
  qed
qed

lemma recordings_nonempty: "(p, ctx, bt) \<in> set (recordings exprs stack) \<Longrightarrow> p \<noteq> []"
  using recordings_props by blast

subsection \<open>The scope of a context\<close>

lemma computeContextPath_Some:
  assumes "computeContextPath stack = Some (prefix, root)"
  shows "root \<noteq> [] \<and> prefix \<noteq> [] \<and> last prefix = CHR ''.''"
  using assms
  by (auto simp: computeContextPath_def split: prod.splits option.splits if_splits)

lemma scope_of_make_context: "scope_of (make_context stack) = computeContextPath stack"
proof (cases "computeContextPath stack")
  case None
  then show ?thesis by (simp add: scope_of_def make_context_def)
next
  case (Some pr)
  obtain prefix root where "pr = (prefix, root)"
    by (cases pr)
  with Some computeContextPath_Some [of stack prefix root] show ?thesis
    by (simp add: scope_of_def make_context_def)
qed

subsection \<open>Insertion order\<close>

lemma first_index_less: "first_index xs x < length xs \<longleftrightarrow> x \<in> set xs"
  unfolding first_index_def
  by (induction xs) auto

lemma first_index_le: "first_index xs x \<le> length xs"
  unfolding first_index_def by (simp add: length_takeWhile_le)

lemma first_index_append_in: "x \<in> set xs \<Longrightarrow> first_index (xs @ ys) x = first_index xs x"
  unfolding first_index_def by (induction xs) auto

lemma first_index_append_notin:
  "x \<notin> set xs \<Longrightarrow> first_index (xs @ ys) x = length xs + first_index ys x"
  unfolding first_index_def by (induction xs) auto

lemma first_index_single: "first_index [x] y = (if y = x then 0 else 1)"
  by (simp add: first_index_def)

lemma foldl_Set_add_snoc:
  "foldl Set_add acc (xs @ [x]) = Set_add (foldl Set_add acc xs) x"
  by simp

lemma set_foldl_Set_add: "set (foldl Set_add acc xs) = set acc \<union> set xs"
  by (induction xs arbitrary: acc) (auto simp: Set_add_def)

lemma distinct_foldl_Set_add: "distinct acc \<Longrightarrow> distinct (foldl Set_add acc xs)"
  by (induction xs arbitrary: acc) (auto simp: Set_add_def)

lemma set_new_Set: "set (new_Set xs) = set xs"
  by (simp add: new_Set_def set_foldl_Set_add)

lemma distinct_new_Set: "distinct (new_Set xs)"
  by (simp add: new_Set_def distinct_foldl_Set_add)

lemma new_Set_snoc: "new_Set (xs @ [x]) = (if x \<in> set xs then new_Set xs else new_Set xs @ [x])"
  using set_new_Set [of xs] by (simp add: new_Set_def Set_add_def)

lemma new_Set_order:
  assumes "first_index xs a < first_index xs b"
  shows "first_index (new_Set xs) a < first_index (new_Set xs) b"
  using assms
proof (induction xs rule: rev_induct)
  case Nil
  then show ?case by (simp add: first_index_def)
next
  case (snoc x xs)
  have a_in: "a \<in> set (xs @ [x])"
    using snoc.prems first_index_le [of "xs @ [x]" b] first_index_less [of "xs @ [x]" a]
    by simp
  show ?case
  proof (cases "x \<in> set xs")
    case True
    then have a_xs: "a \<in> set xs"
      using a_in by auto
    have "first_index xs a < first_index xs b"
    proof (cases "b \<in> set xs")
      case True
      then show ?thesis
        using snoc.prems a_xs by (simp add: first_index_append_in)
    next
      case False
      then have "first_index xs b = length xs"
        using first_index_less [of xs b] first_index_le [of xs b] by simp
      then show ?thesis
        using a_xs first_index_less [of xs a] by simp
    qed
    then show ?thesis
      using snoc.IH True by (simp add: new_Set_snoc)
  next
    case False
    note x_new = False
    show ?thesis
    proof (cases "a \<in> set xs")
      case True
      then have a_U: "a \<in> set (new_Set xs)"
        by (simp add: set_new_Set)
      show ?thesis
      proof (cases "b \<in> set xs")
        case True
        then have "first_index xs a < first_index xs b"
          using snoc.prems \<open>a \<in> set xs\<close> by (simp add: first_index_append_in)
        then have "first_index (new_Set xs) a < first_index (new_Set xs) b"
          by (rule snoc.IH)
        moreover have "b \<in> set (new_Set xs)"
          using True by (simp add: set_new_Set)
        ultimately show ?thesis
          using a_U x_new by (simp add: new_Set_snoc first_index_append_in)
      next
        case False
        then have "b \<notin> set (new_Set xs)"
          by (simp add: set_new_Set)
        then have "first_index (new_Set xs @ [x]) b \<ge> length (new_Set xs)"
          by (simp add: first_index_append_notin)
        moreover have "first_index (new_Set xs @ [x]) a < length (new_Set xs)"
          using a_U first_index_less [of "new_Set xs" a] by (simp add: first_index_append_in)
        ultimately show ?thesis
          using x_new by (simp add: new_Set_snoc)
      qed
    next
      case False
      then have ax: "a = x"
        using a_in by auto
      have ia: "first_index (xs @ [x]) a = length xs"
        using False ax by (simp add: first_index_append_notin first_index_single)
      have b_xs: "b \<notin> set xs"
      proof
        assume "b \<in> set xs"
        then have "first_index (xs @ [x]) b < length xs"
          using first_index_less [of xs b] by (simp add: first_index_append_in)
        then show False
          using snoc.prems ia by simp
      qed
      have bx: "b \<noteq> x"
        using snoc.prems ax by auto
      have "first_index (new_Set xs @ [x]) a = length (new_Set xs)"
        using False ax by (simp add: first_index_append_notin set_new_Set first_index_single)
      moreover have "first_index (new_Set xs @ [x]) b = Suc (length (new_Set xs))"
        using b_xs bx by (simp add: first_index_append_notin set_new_Set first_index_single)
      ultimately show ?thesis
        using x_new by (simp add: new_Set_snoc)
    qed
  qed
qed

subsection \<open>The variable map\<close>

lemma vpath_recorded_variable: "vpath (recorded_variable c) = recorded_path c"
  by (cases c) (simp add: recorded_variable_def createVariable_def)

lemma record_call_keys: "map fst (record_call vars c) = Set_add (map fst vars) (recorded_path c)"
  by (simp add: record_call_eq Set_add_def)

lemma foldl_record_call_keys:
  "map fst (foldl record_call vars cs) = foldl Set_add (map fst vars) (map recorded_path cs)"
  by (induction cs arbitrary: vars) (simp_all add: record_call_keys)

lemma foldl_record_call_entries:
  assumes "(k, v) \<in> set (foldl record_call vars cs)"
  shows "(k, v) \<in> set vars
         \<or> (k \<notin> fst ` set vars
            \<and> (\<exists>c\<in>set cs. find (\<lambda>d. recorded_path d = k) cs = Some c \<and> v = recorded_variable c))"
  using assms
proof (induction cs arbitrary: vars)
  case Nil
  then show ?case by simp
next
  case (Cons c cs)
  from Cons.prems have "(k, v) \<in> set (foldl record_call (record_call vars c) cs)"
    by simp
  from Cons.IH [OF this]
  consider "(k, v) \<in> set (record_call vars c)"
    | d where "k \<notin> fst ` set (record_call vars c)" "d \<in> set cs"
        "find (\<lambda>d. recorded_path d = k) cs = Some d" "v = recorded_variable d"
    by blast
  then show ?case
  proof cases
    case 1
    then show ?thesis
      by (auto simp: record_call_eq split: if_splits)
  next
    case 2
    have "recorded_path c \<in> fst ` set (record_call vars c)"
      by (auto simp: record_call_eq)
    with 2(1) have "recorded_path c \<noteq> k"
      by auto
    moreover have "k \<notin> fst ` set vars"
      using 2(1) by (auto simp: record_call_eq split: if_splits)
    ultimately show ?thesis
      using 2 by auto
  qed
qed

lemma extract_Some:
  assumes "extract' lexer content = Some r"
  obtains exprs where "parseExpressions lexer content = Some exprs"
    and "variables r = map snd (foldl record_call [] (recordings exprs []))"
    and "rootVariables r = new_Set (map vname (filter (\<lambda>v. \<not> truthy (vcontext v)) (variables r)))"
  using assms
  by (auto simp: extract'_def Let_def extractVariablesFromExpressions_def
        extractVariables_loop_recordings split: option.splits)

lemma variables_recorded:
  assumes "v \<in> set (map snd (foldl record_call [] cs))"
  obtains c where "c \<in> set cs" "v = recorded_variable c"
    "find (\<lambda>d. recorded_path d = vpath v) cs = Some c"
proof -
  from assms obtain k where "(k, v) \<in> set (foldl record_call [] cs)"
    by auto
  from foldl_record_call_entries [OF this]
  obtain c where c: "c \<in> set cs" "find (\<lambda>d. recorded_path d = k) cs = Some c"
      "v = recorded_variable c"
    by auto
  then have "recorded_path c = k"
    by (auto simp: find_Some_iff)
  with c that show ?thesis
    by (simp add: vpath_recorded_variable)
qed

lemma variables_paths:
  "map vpath (map snd (foldl record_call [] cs)) = new_Set (map recorded_path cs)"
proof -
  have "\<forall>(k, v)\<in>set (foldl record_call [] cs). vpath v = k"
  proof clarify
    fix k v assume "(k, v) \<in> set (foldl record_call [] cs)"
    from foldl_record_call_entries [OF this]
    show "vpath v = k"
      by (auto simp: vpath_recorded_variable find_Some_iff)
  qed
  then have "map (vpath \<circ> snd) (foldl record_call [] cs) = map fst (foldl record_call [] cs)"
    by (intro map_cong) auto
  then show ?thesis
    using foldl_record_call_keys [of "[]" cs] by (simp add: new_Set_def)
qed

text \<open>The fields of a recorded variable, for a recording of the walk.\<close>

lemma recorded_variable_fields:
  assumes "(p, ctx, bt) \<in> set (recordings exprs stack)"
  obtains st where "ctx = make_context st"
    and "p \<noteq> []" and "bt = None \<or> (\<exists>h\<in>BUILT_IN_HELPERS. bt = Some h)"
    and "vname (recorded_variable (p, ctx, bt)) = hd p"
    and "blockType (recorded_variable (p, ctx, bt)) = bt"
    and "vcontext (recorded_variable (p, ctx, bt)) = map_option snd (computeContextPath st)"
    and "vpath (recorded_variable (p, ctx, bt)) =
           (case computeContextPath st of None \<Rightarrow> join_dot p
            | Some (prefix, root) \<Rightarrow> prefix @ join_dot p)"
proof -
  from recordings_props [OF assms] obtain st where st: "ctx = make_context st"
    and p: "p \<noteq> []" and bt: "bt = None \<or> (\<exists>h\<in>BUILT_IN_HELPERS. bt = Some h)"
    by blast
  show ?thesis
  proof (rule that [OF st p bt])
    show "vname (recorded_variable (p, ctx, bt)) = hd p"
      by (simp add: recorded_variable_def createVariable_def)
    show "blockType (recorded_variable (p, ctx, bt)) = bt"
      by (simp add: recorded_variable_def createVariable_def)
    show "vcontext (recorded_variable (p, ctx, bt)) = map_option snd (computeContextPath st)"
      by (simp add: recorded_variable_def createVariable_def st scope_of_make_context)
    show "vpath (recorded_variable (p, ctx, bt)) =
           (case computeContextPath st of None \<Rightarrow> join_dot p
            | Some (prefix, root) \<Rightarrow> prefix @ join_dot p)"
      by (simp add: vpath_recorded_variable recorded_path_def st scope_of_make_context
            split: option.splits)
  qed
qed


subsection \<open>Extracted variables\<close>


lemma each_items_extract:
  "extract' each_items_scanner ''{{#each items}}{{name}}{{/each}}'' =
     Some \<lparr> variables =
              [\<lparr>vname = ''items'', vpath = ''items'', vtype = BlockVar,
                 blockType = Some ''each'', vcontext = None\<rparr>,
               \<lparr>vname = ''name'', vpath = ''items[].name'', vtype = Nested,
                 blockType = None, vcontext = Some ''items''\<rparr>],
            rootVariables = [''items''] \<rparr>"
  by code_simp


subsection \<open>Deduplication and order\<close>

lemma name_and_name_extract:
  "extract' name_and_name_scanner ''{{name}} and {{name}}'' =
     Some \<lparr> variables =
              [\<lparr>vname = ''name'', vpath = ''name'', vtype = Simple,
                 blockType = None, vcontext = None\<rparr>],
            rootVariables = [''name''] \<rparr>"
  by code_simp

lemma name_and_name_yields:
  assumes "yields lexer ''{{name}} and {{name}}'' name_and_name_terminals"
  shows "map_option (\<lambda>r. length (variables r)) (extract' lexer ''{{name}} and {{name}}'') = Some 1"
proof -
  have a: "map_option (\<lambda>r. length (variables r))
             (extract' (\<lambda>_. (name_and_name_terminals, ReachedEOF)) ''{{name}} and {{name}}'')
           = Some 1"
    by code_simp
  have b: "map_option (\<lambda>r. length (variables r))
             (extract' (\<lambda>_. (name_and_name_terminals @ [terminal_at ''EOF'' [] 21 21], ReachedEOF))
                ''{{name}} and {{name}}'')
           = Some 1"
    by code_simp
  have len: "length ''{{name}} and {{name}}'' = 21"
    by simp
  from assms [unfolded yields_def len]
  consider "lexer ''{{name}} and {{name}}'' = (name_and_name_terminals, ReachedEOF)"
    | "lexer ''{{name}} and {{name}}''
         = (name_and_name_terminals @ [terminal_at ''EOF'' [] 21 21], ReachedEOF)"
    by blast
  then show ?thesis
  proof cases
    case 1
    show ?thesis
      by (simp only: extract_scan [of lexer "''{{name}} and {{name}}''", OF 1] a)
  next
    case 2
    show ?thesis
      by (simp only: extract_scan [of lexer "''{{name}} and {{name}}''", OF 2] b)
  qed
qed

text \<open>
  C6. Variables are deduplicated by their final path. A call of \<^verbatim>\<open>addVariable\<close> whose
  path is already a key leaves the map as it is; the paths of the extracted variables are
  distinct; each extracted variable is the one that the first recording of its path
  creates; and \<^verbatim>\<open>extract('{{name}} and {{name}}')\<close> has one variable.
\<close>

theorem variables_deduplicated_by_path:
  "(recorded_path (path, ctx, bt) \<in> fst ` set vars \<longrightarrow> addVariable path ctx vars bt = vars)
   \<and> (extract' lexer content = Some r \<longrightarrow> distinct (map vpath (variables r)))
   \<and> (extract' lexer content = Some r \<and> parseExpressions lexer content = Some exprs
        \<and> v \<in> set (variables r)
      \<longrightarrow> map_option recorded_variable
            (find (\<lambda>c. recorded_path c = vpath v) (recordings exprs [])) = Some v)
   \<and> (yields lexer' ''{{name}} and {{name}}'' name_and_name_terminals
      \<longrightarrow> map_option (\<lambda>r. length (variables r)) (extract' lexer' ''{{name}} and {{name}}'')
            = Some 1)"
proof (intro conjI impI)
  assume "recorded_path (path, ctx, bt) \<in> fst ` set vars"
  then show "addVariable path ctx vars bt = vars"
    by (simp add: addVariable_record_call record_call_eq)
next
  assume "extract' lexer content = Some r"
  then obtain es where "variables r = map snd (foldl record_call [] (recordings es []))"
    by (rule extract_Some)
  then show "distinct (map vpath (variables r))"
    by (simp only: variables_paths distinct_new_Set)
next
  assume a: "extract' lexer content = Some r \<and> parseExpressions lexer content = Some exprs
        \<and> v \<in> set (variables r)"
  then obtain es where "parseExpressions lexer content = Some es"
    "variables r = map snd (foldl record_call [] (recordings es []))"
    by (auto elim: extract_Some)
  with a have "v \<in> set (map snd (foldl record_call [] (recordings exprs [])))"
    by auto
  from variables_recorded [OF this]
  obtain c where "v = recorded_variable c"
    "find (\<lambda>d. recorded_path d = vpath v) (recordings exprs []) = Some c"
    by blast
  then show "map_option recorded_variable
            (find (\<lambda>c. recorded_path c = vpath v) (recordings exprs [])) = Some v"
    by simp
next
  assume "yields lexer' ''{{name}} and {{name}}'' name_and_name_terminals"
  then show "map_option (\<lambda>r. length (variables r)) (extract' lexer' ''{{name}} and {{name}}'')
            = Some 1"
    by (rule name_and_name_yields)
qed

theorem variables_deduplicated_by_path_witness:
  "addVariable [''name''] (make_context [])
      [(''name'', createVariable ''name'' ''name'' None None)] (Some ''if'')
     = [(''name'', createVariable ''name'' ''name'' None None)]
   \<and> extract' name_and_name_scanner ''{{name}} and {{name}}'' \<noteq> None
   \<and> map vpath (variables (the (extract' name_and_name_scanner ''{{name}} and {{name}}'')))
       = [''name'']
   \<and> map (\<lambda>c. blockType (recorded_variable c))
        (recordings (the (parseExpressions name_and_name_scanner ''{{name}} and {{name}}'')) [])
       = [None, None]"
proof -
  let ?s = "''{{name}} and {{name}}''"
  let ?v = "\<lparr>vname = ''name'', vpath = ''name'', vtype = Simple,
              blockType = None, vcontext = None\<rparr>"
  let ?r = "\<lparr> variables = [?v], rootVariables = [''name''] \<rparr>"
  let ?es = "the (parseExpressions name_and_name_scanner ?s)"
  let ?vars = "[(''name'', createVariable ''name'' ''name'' None None)]"
  note T = variables_deduplicated_by_path
    [of "[''name'']" "make_context []" "Some ''if''" ?vars name_and_name_scanner ?s ?r ?es ?v
        name_and_name_scanner]
  have h1: "recorded_path ([''name''], make_context [], Some ''if'') \<in> fst ` set ?vars"
    by code_simp
  have h2: "parseExpressions name_and_name_scanner ?s = Some ?es"
    by code_simp
  have h3: "yields name_and_name_scanner ?s name_and_name_terminals"
    by (simp add: yields_def name_and_name_scanner_def)
  have h4: "recordings ?es [] = [([''name''], make_context [], None), ([''name''], make_context [], None)]"
    by code_simp
  from T h1 h2 h3 name_and_name_extract
  have "addVariable [''name''] (make_context []) ?vars (Some ''if'') = ?vars"
    and "distinct (map vpath (variables ?r))"
    by simp_all
  then show ?thesis
    by (simp add: name_and_name_extract h4 recorded_variable_def createVariable_def)
qed

lemma extracted_context_truthy:
  assumes "extract' lexer content = Some r" and "v \<in> set (variables r)"
  shows "truthy (vcontext v) \<longleftrightarrow> vcontext v \<noteq> None"
proof -
  from assms(1) obtain exprs
    where vs: "variables r = map snd (foldl record_call [] (recordings exprs []))"
    by (rule extract_Some)
  with assms(2) have "v \<in> set (map snd (foldl record_call [] (recordings exprs [])))"
    by simp
  from variables_recorded [OF this]
  obtain c where c: "c \<in> set (recordings exprs [])" "v = recorded_variable c"
    by blast
  obtain p ctx bt where pcb: "c = (p, ctx, bt)"
    by (cases c)
  from c(1) [unfolded pcb] obtain st
    where cx: "vcontext (recorded_variable (p, ctx, bt)) = map_option snd (computeContextPath st)"
    by (rule recorded_variable_fields)
  show ?thesis
    using cx c(2) pcb computeContextPath_Some [of st]
    by (cases "computeContextPath st") (auto simp: truthy_def)
qed

text \<open>
  C7. \<^verbatim>\<open>rootVariables\<close> lists the names of the extracted variables whose context is
  unset: each such name once, and in the order in which the names first appear in the
  list of variables.
\<close>

theorem root_variables_unique_in_order:
  assumes "extract' lexer content = Some r"
  shows "distinct (rootVariables r)
         \<and> set (rootVariables r) = {vname v | v. v \<in> set (variables r) \<and> vcontext v = None}
         \<and> (first_index (map vname (filter (\<lambda>v. vcontext v = None) (variables r))) a
              < first_index (map vname (filter (\<lambda>v. vcontext v = None) (variables r))) b
            \<longrightarrow> first_index (rootVariables r) a < first_index (rootVariables r) b)"
proof -
  let ?names = "map vname (filter (\<lambda>v. vcontext v = None) (variables r))"
  have "filter (\<lambda>v. \<not> truthy (vcontext v)) (variables r)
          = filter (\<lambda>v. vcontext v = None) (variables r)"
    using extracted_context_truthy [OF assms] by (intro filter_cong) auto
  moreover from assms
  have "rootVariables r = new_Set (map vname (filter (\<lambda>v. \<not> truthy (vcontext v)) (variables r)))"
    by (rule extract_Some)
  ultimately have rv: "rootVariables r = new_Set ?names"
    by simp
  have "distinct (rootVariables r)"
    by (simp add: rv distinct_new_Set)
  moreover have "set (rootVariables r) = {vname v | v. v \<in> set (variables r) \<and> vcontext v = None}"
    by (auto simp: rv set_new_Set)
  moreover have "first_index ?names a < first_index ?names b
            \<longrightarrow> first_index (rootVariables r) a < first_index (rootVariables r) b"
    by (simp add: rv new_Set_order)
  ultimately show ?thesis
    by blast
qed

theorem root_variables_unique_in_order_witness:
  "extract' each_items_scanner ''{{#each items}}{{name}}{{/each}}'' \<noteq> None
   \<and> rootVariables (the (extract' each_items_scanner ''{{#each items}}{{name}}{{/each}}''))
       = [''items'']
   \<and> first_index [''items''] ''items'' < first_index [''items''] ''name''"
proof -
  let ?r = "\<lparr> variables =
              [\<lparr>vname = ''items'', vpath = ''items'', vtype = BlockVar,
                 blockType = Some ''each'', vcontext = None\<rparr>,
               \<lparr>vname = ''name'', vpath = ''items[].name'', vtype = Nested,
                 blockType = None, vcontext = Some ''items''\<rparr>],
            rootVariables = [''items''] \<rparr>"
  have h: "first_index (map vname (filter (\<lambda>v. vcontext v = None) (variables ?r))) ''items''
            < first_index (map vname (filter (\<lambda>v. vcontext v = None) (variables ?r))) ''name''"
    by (simp add: first_index_def)
  from root_variables_unique_in_order [OF each_items_extract, of "''items''" "''name''"] h
  have "first_index [''items''] ''items'' < first_index [''items''] ''name''"
    by simp
  then show ?thesis
    by (simp add: each_items_extract)
qed

text \<open>
  C10. The list of variables is in the order of first recording: every recorded path is
  in the list, and a path whose first recording in the left-to-right walk of the
  expressions comes before the first recording of another path stands before it in the
  list.
\<close>

theorem variables_in_order_of_first_recording:
  assumes "parseExpressions lexer content = Some exprs" and "extract' lexer content = Some r"
  shows "set (map vpath (variables r)) = set (map recorded_path (recordings exprs []))
         \<and> (first_index (map recorded_path (recordings exprs [])) p1
              < first_index (map recorded_path (recordings exprs [])) p2
            \<longrightarrow> first_index (map vpath (variables r)) p1 < first_index (map vpath (variables r)) p2)"
proof -
  from assms(2) obtain es where "parseExpressions lexer content = Some es"
    "variables r = map snd (foldl record_call [] (recordings es []))"
    by (rule extract_Some)
  with assms(1) have "variables r = map snd (foldl record_call [] (recordings exprs []))"
    by simp
  then have "map vpath (variables r) = new_Set (map recorded_path (recordings exprs []))"
    by (simp only: variables_paths)
  then show ?thesis
    by (simp add: set_new_Set new_Set_order)
qed

theorem variables_in_order_of_first_recording_witness:
  "map recorded_path
     (recordings (the (parseExpressions each_items_scanner ''{{#each items}}{{name}}{{/each}}'')) [])
     = [''items'', ''items[].name'']
   \<and> first_index
        (map vpath (variables (the (extract' each_items_scanner ''{{#each items}}{{name}}{{/each}}''))))
        ''items''
     < first_index
        (map vpath (variables (the (extract' each_items_scanner ''{{#each items}}{{name}}{{/each}}''))))
        ''items[].name''"
proof -
  let ?s = "''{{#each items}}{{name}}{{/each}}''"
  let ?es = "the (parseExpressions each_items_scanner ?s)"
  let ?r = "the (extract' each_items_scanner ?s)"
  have h1: "parseExpressions each_items_scanner ?s = Some ?es"
    by code_simp
  have h2: "extract' each_items_scanner ?s = Some ?r"
    by code_simp
  have h3: "map recorded_path (recordings ?es []) = [''items'', ''items[].name'']"
    by code_simp
  have h4: "first_index (map recorded_path (recordings ?es [])) ''items''
             < first_index (map recorded_path (recordings ?es [])) ''items[].name''"
    by (simp only: h3) (simp add: first_index_def)
  from variables_in_order_of_first_recording [OF h1 h2, of "''items''" "''items[].name''"] h4
  have "first_index (map vpath (variables ?r)) ''items''
          < first_index (map vpath (variables ?r)) ''items[].name''"
    by blast
  with h3 show ?thesis
    by blast
qed

subsection \<open>Resynchronization\<close>

lemma parseExpressions_loop_stuck:
  assumes "remaining \<noteq> []"
    and "consumed (parseSegment lexer remaining) \<noteq> length remaining"
    and "search_open (drop (consumed (parseSegment lexer remaining)) remaining) = Some nextOpen"
    and "drop nextOpen (drop (consumed (parseSegment lexer remaining)) remaining) = remaining"
  shows "parseExpressions_loop lexer exprs remaining = None"
proof (rule ccontr)
  assume "parseExpressions_loop lexer exprs remaining \<noteq> None"
  then obtain y where y: "parseExpressions_loop lexer exprs remaining = Some y"
    by auto
  have "\<not> (lexer = lexer \<and> remaining = remaining)"
  proof (rule parseExpressions_loop.raw_induct
      [where P = "\<lambda>lx es rem z. \<not> (lx = lexer \<and> rem = remaining)", OF _ y])
    fix loop :: "scanner \<Rightarrow> Expression list \<Rightarrow> string \<Rightarrow> Expression list option"
      and lx es rem z
    assume IH: "\<And>lx' es' rem' z'. loop lx' es' rem' = Some z' \<Longrightarrow> \<not> (lx' = lexer \<and> rem' = remaining)"
      and step: "(if 0 < length rem
          then let result = parseSegment lx rem;
                   exprs' = es @ seg_expressions result
               in if consumed result = length rem then Some exprs'
                  else let afterError = drop (consumed result) rem
                       in case search_open afterError of None \<Rightarrow> Some exprs'
                          | Some nextOpen \<Rightarrow> loop lx exprs' (drop nextOpen afterError)
          else Some es) = Some z"
    show "\<not> (lx = lexer \<and> rem = remaining)"
    proof
      assume "lx = lexer \<and> rem = remaining"
      with step assms
      have "loop lexer (es @ seg_expressions (parseSegment lexer remaining)) remaining = Some z"
        by (simp add: Let_def)
      from IH [OF this] show False
        by simp
    qed
  qed
  then show False
    by simp
qed

text \<open>
  C2. On a template that the scanner rejects before its first terminal and that begins
  with \<^verbatim>\<open>{{\<close>, such as the unterminated comment \<^verbatim>\<open>{{!--\<close>, the loop of
  \<^verbatim>\<open>parseExpressions\<close> resynchronizes at offset 0 of the same string for ever:
  \<^verbatim>\<open>extract\<close> does not return.
\<close>

theorem extract_unterminated_comment_never_returns:
  assumes "lexer ''{{!--'' = ([], Threw)"
  shows "extract' lexer ''{{!--'' = None"
proof -
  have c: "consumed (parseSegment lexer ''{{!--'') = 0"
    using assms by (simp add: parseSegment_def)
  have "parseExpressions_loop lexer [] ''{{!--'' = None"
    by (rule parseExpressions_loop_stuck [where nextOpen = 0]) (simp_all add: c)
  then show ?thesis
    by (simp add: extract'_def parseExpressions_def)
qed

theorem extract_unterminated_comment_never_returns_witness:
  "failing_scanner ''{{!--'' = ([], Threw) \<and> extract' failing_scanner ''{{!--'' = None"
proof -
  have h: "failing_scanner ''{{!--'' = ([], Threw)"
    by (simp add: failing_scanner_def)
  show ?thesis
    using h extract_unterminated_comment_never_returns [of failing_scanner, OF h] by simp
qed

text \<open>
  The other half of C2 holds: a throw of the scanner does not reach the caller of
  \<^verbatim>\<open>tokenize\<close>, which works on the terminals produced before it.
\<close>

lemma tokenize_keeps_tokens_before_failure:
  "tokenize (\<lambda>_. (ts, Threw)) content = tokenize (\<lambda>_. (ts, ReachedEOF)) content"
  by (simp add: tokenize_def lexerTokenize_def)

text \<open>When the scanner does not throw, \<^verbatim>\<open>extract\<close> returns after one segment.\<close>

lemma extract_returns_without_failure:
  assumes "snd (lexer content) = ReachedEOF"
  shows "\<exists>r. extract' lexer content = Some r"
  using assms by (simp add: extract'_def parseExpressions_eof Let_def)

lemma search_open_bound: "search_open cs = Some k \<Longrightarrow> k + 2 \<le> length cs"
proof (induction cs arbitrary: k rule: search_open.induct)
  case (1 a b cs)
  then show ?case
    by (auto split: if_splits)
qed simp_all

text \<open>
  With a scanner that never fails on a remainder that begins with \<^verbatim>\<open>{{\<close> without having
  reported a position beyond 0, every turn of the loop shortens the remainder, and the
  loop ends.
\<close>

lemma parseExpressions_loop_returns:
  assumes "\<And>rem. rem \<noteq> [] \<Longrightarrow> consumed (parseSegment lexer rem) = 0 \<Longrightarrow>
             search_open rem \<noteq> Some 0"
  shows "\<exists>result. parseExpressions_loop lexer exprs remaining = Some result"
proof (induction "length remaining" arbitrary: exprs remaining rule: less_induct)
  case less
  let ?r = "parseSegment lexer remaining"
  let ?after = "drop (consumed ?r) remaining"
  show ?case
  proof (cases "remaining = [] \<or> consumed ?r = length remaining \<or> search_open ?after = None")
    case True
    then show ?thesis
      by (subst parseExpressions_loop.simps) (auto simp: Let_def)
  next
    case False
    then obtain k where k: "search_open ?after = Some k"
      by auto
    from False have ne: "remaining \<noteq> []" and c: "consumed ?r \<noteq> length remaining"
      by auto
    have "consumed ?r + k > 0"
    proof (rule ccontr)
      assume "\<not> consumed ?r + k > 0"
      then have "consumed ?r = 0" "k = 0"
        by auto
      with k assms [OF ne] show False
        by auto
    qed
    moreover have "k + 2 \<le> length ?after"
      using k by (rule search_open_bound)
    ultimately have "length (drop k ?after) < length remaining"
      by auto
    from less [OF this]
    obtain result where
      "parseExpressions_loop lexer (exprs @ seg_expressions ?r) (drop k ?after) = Some result"
      by blast
    then show ?thesis
      using ne c k by (subst parseExpressions_loop.simps) (simp add: Let_def)
  qed
qed

lemma extract_returns_with_progress:
  assumes "\<And>rem. rem \<noteq> [] \<Longrightarrow> consumed (parseSegment lexer rem) = 0 \<Longrightarrow>
             search_open rem \<noteq> Some 0"
  shows "\<exists>r. extract' lexer content = Some r"
proof -
  from assms obtain exprs where "parseExpressions_loop lexer [] content = Some exprs"
    using parseExpressions_loop_returns [of lexer "[]" content] by blast
  then show ?thesis
    by (simp add: extract'_def parseExpressions_def Let_def)
qed

subsection \<open>Offsets from lines and columns\<close>

lemma foldl_offsets:
  "foldl (\<lambda>offset l. offset + (length l + 1)) a ls = a + sum_list (map (\<lambda>l. length l + 1) ls)"
  by (induction ls arbitrary: a) simp_all

lemma locToOffset_sum:
  "locToOffset ls line column = sum_list (map (\<lambda>l. length l + 1) (take (line - 1) ls)) + column"
  unfolding locToOffset_def foldl_offsets by simp

lemma split_nl_not_Nil: "split_nl cs \<noteq> []"
  by (induction cs) (auto split: list.splits)

lemma line_of_Cons:
  "line_of (c # cs) (Suc k) = (if c = CHR 0x0A then Suc (line_of cs k) else line_of cs k)"
  by (simp add: line_of_def)

lemma column_of_all:
  assumes "CHR 0x0A \<notin> set (take k cs)"
  shows "column_of cs k = length (take k cs)"
proof -
  have "takeWhile (\<lambda>c. c \<noteq> CHR 0x0A) (rev (take k cs)) = rev (take k cs)"
    using assms by (subst takeWhile_eq_all_conv) auto
  then show ?thesis
    by (simp only: column_of_def length_rev)
qed

lemma column_of_no_newline:
  "CHR 0x0A \<notin> set (take k cs) \<Longrightarrow> k \<le> length cs \<Longrightarrow> column_of cs k = k"
  by (simp add: column_of_all)

lemma column_of_Cons:
  "column_of (c # cs) (Suc k) =
     (if c \<noteq> CHR 0x0A \<and> CHR 0x0A \<notin> set (take k cs) then Suc (column_of cs k)
      else column_of cs k)"
proof (cases "CHR 0x0A \<in> set (take k cs)")
  case True
  then have "takeWhile (\<lambda>c. c \<noteq> CHR 0x0A) (rev (take k cs) @ [c])
               = takeWhile (\<lambda>c. c \<noteq> CHR 0x0A) (rev (take k cs))"
    by (intro takeWhile_append1 [where x = "CHR 0x0A"]) simp_all
  with True show ?thesis
    by (simp add: column_of_def)
next
  case False
  then have "takeWhile (\<lambda>c. c \<noteq> CHR 0x0A) (rev (take k cs) @ [c])
               = rev (take k cs) @ takeWhile (\<lambda>c. c \<noteq> CHR 0x0A) [c]"
    by (intro takeWhile_append2) auto
  then have "column_of (c # cs) (Suc k) = length (take k cs) + (if c \<noteq> CHR 0x0A then 1 else 0)"
    by (simp add: column_of_def)
  with False show ?thesis
    by (simp add: column_of_all)
qed

lemma line_of_one: "line_of cs k = Suc 0 \<longleftrightarrow> CHR 0x0A \<notin> set (take k cs)"
  by (auto simp: line_of_def filter_empty_conv)

lemma locToOffset_exact:
  "k \<le> length content \<Longrightarrow>
     locToOffset (split_nl content) (line_of content k) (column_of content k) = k"
proof (induction content arbitrary: k)
  case Nil
  then show ?case
    by (simp add: locToOffset_sum line_of_def column_of_def)
next
  case (Cons c cs)
  show ?case
  proof (cases k)
    case 0
    then show ?thesis
      by (simp add: locToOffset_sum line_of_def column_of_def)
  next
    case (Suc k')
    with Cons.prems have k': "k' \<le> length cs"
      by simp
    obtain l ls where sp: "split_nl cs = l # ls"
      using split_nl_not_Nil [of cs] by (cases "split_nl cs") auto
    have IH: "sum_list (map (\<lambda>l. length l + 1) (take (line_of cs k' - 1) (l # ls)))
                + column_of cs k' = k'"
      using Cons.IH [OF k'] by (simp add: locToOffset_sum sp)
    show ?thesis
    proof (cases "c = CHR 0x0A")
      case True
      have "line_of cs k' \<ge> 1"
        by (simp add: line_of_def)
      then obtain n where n: "line_of cs k' = Suc n"
        by (cases "line_of cs k'") auto
      show ?thesis
        using True IH n by (simp add: Suc locToOffset_sum line_of_Cons column_of_Cons sp)
    next
      case False
      show ?thesis
      proof (cases "CHR 0x0A \<in> set (take k' cs)")
        case True
        then have "line_of cs k' \<noteq> 1"
          by (simp add: line_of_one)
        moreover have "line_of cs k' \<ge> 1"
          by (simp add: line_of_def)
        ultimately obtain n where n: "line_of cs k' = Suc (Suc n)"
          by (cases "line_of cs k'"; cases "line_of cs k' - 1") auto
        show ?thesis
          using False True IH n
          by (simp add: Suc locToOffset_sum line_of_Cons column_of_Cons sp)
      next
        case nonl: False
        then have "line_of cs k' = Suc 0" "column_of cs k' = k'"
          using k' by (simp_all add: line_of_one column_of_no_newline)
        then show ?thesis
          using False nonl
          by (simp add: Suc locToOffset_sum line_of_Cons column_of_Cons sp)
      qed
    qed
  qed
qed


subsection \<open>Spans through the stages\<close>

lemma ordered_spans_bounds:
  "ordered_spans n pos spans \<Longrightarrow> (a, b) \<in> set spans \<Longrightarrow> a \<le> n \<and> b \<le> n"
  by (induction n pos spans rule: ordered_spans.induct) auto

text \<open>The start and end of every token in a list.\<close>

lemma lexerTokenize_loop_spans:
  assumes "list_all2 (located content) items spans"
    and "\<forall>(a, b)\<in>set spans. a \<le> length content \<and> b \<le> length content"
  shows "map (\<lambda>t. (tk_start t, tk_end t)) (lexerTokenize_loop (split_nl content) items) = spans"
  using assms
proof (induction items spans rule: list_all2_induct)
  case Nil
  show ?case by simp
next
  case (Cons item items sp spans)
  obtain a b where sp: "sp = (a, b)"
    by (cases sp)
  with Cons.prems have "a \<le> length content" "b \<le> length content"
    by auto
  then show ?case
    using Cons sp by (simp add: located_def locToOffset_exact)
qed

lemma normalizeTokens_spans:
  "map (\<lambda>t. (tk_start t, tk_end t)) (normalizeTokens toks) = map (\<lambda>t. (tk_start t, tk_end t)) toks"
  by (simp add: normalizeTokens_def normalizeToken_def comp_def)

lemma annotate_step_span:
  "annotate_step st result token = (st', annotated) \<Longrightarrow>
     tk_start annotated = tk_start token \<and> tk_end annotated = tk_end token"
  by (auto simp: annotate_step_def Let_def)

lemma annotate_loop_spans:
  "map (\<lambda>t. (tk_start t, tk_end t)) (annotate_loop st result toks) =
     map (\<lambda>t. (tk_start t, tk_end t)) result @ map (\<lambda>t. (tk_start t, tk_end t)) toks"
proof (induction toks arbitrary: st result)
  case Nil
  show ?case by simp
next
  case (Cons token rest)
  obtain st' annotated where s: "annotate_step st result token = (st', annotated)"
    by (cases "annotate_step st result token")
  from annotate_step_span [OF s] show ?case
    by (simp add: s Cons.IH)
qed

lemma annotateContext_spans:
  "map (\<lambda>t. (tk_start t, tk_end t)) (annotateContext toks) = map (\<lambda>t. (tk_start t, tk_end t)) toks"
  by (simp add: annotateContext_def annotate_loop_spans)

lemma classify_loop_tokens: "map fst (classify_loop prev toks) = toks"
  by (induction toks arbitrary: prev) simp_all

lemma classifyTokens_spans:
  "map (\<lambda>(t, h). (tk_start t, tk_end t)) (classifyTokens toks) = map (\<lambda>t. (tk_start t, tk_end t)) toks"
proof -
  have "map (\<lambda>(t, h). (tk_start t, tk_end t)) (classifyTokens toks)
          = map (\<lambda>t. (tk_start t, tk_end t)) (map fst (classifyTokens toks))"
    by (simp add: comp_def case_prod_unfold)
  then show ?thesis
    by (simp add: classifyTokens_def classify_loop_tokens)
qed


subsection \<open>The output is a partition\<close>

lemma contiguous_from_span:
  assumes "a \<le> b" and "b \<le> length content"
    and "contiguous_from content b (filter (\<lambda>t. length (hvalue t) > 0) rest)"
  shows "contiguous_from content a
           (filter (\<lambda>t. length (hvalue t) > 0) (span ty content a b # rest))"
proof (cases "a = b")
  case True
  with assms show ?thesis
    by (simp add: span_def slice_def)
next
  case False
  with assms have "a < b" "length (slice content a b) = b - a"
    by (simp_all add: slice_def)
  with assms show ?thesis
    by (auto simp: span_def)
qed

lemma contiguous_from_gap:
  assumes "pos \<le> tk_start token" and "tk_start token \<le> length content"
    and "contiguous_from content (tk_start token) (filter (\<lambda>t. length (hvalue t) > 0) out)"
  shows "contiguous_from content pos
           (filter (\<lambda>t. length (hvalue t) > 0) (gap_before content pos token @ out))"
proof (cases "tk_start token > pos")
  case True
  then show ?thesis
    using assms contiguous_from_span [of pos "tk_start token" content out Text]
    by (simp add: gap_before_def)
next
  case False
  with assms show ?thesis
    by (simp add: gap_before_def)
qed

lemma buildOutput_loop_partition:
  assumes "ordered_spans (length content) pos (map (\<lambda>(t, h). (tk_start t, tk_end t)) classified)"
    and "pos \<le> length content"
  shows "contiguous_from content pos
           (filter (\<lambda>t. length (hvalue t) > 0) (buildOutput_loop content pos classified))"
  using assms
proof (induction content pos classified rule: buildOutput_loop.induct)
  case (1 content pos)
  then show ?case
    using contiguous_from_span [of pos "length content" content "[]" Text] by simp
next
  case (2 content pos token highlightType)
  from "2.prems" have o: "pos \<le> tk_start token" "tk_start token \<le> tk_end token"
    "tk_end token \<le> length content"
    by simp_all
  have "contiguous_from content (tk_end token)
          (filter (\<lambda>t. length (hvalue t) > 0) (buildOutput_loop content (tk_end token) []))"
    using o by (intro "2.IH") simp_all
  then have "contiguous_from content (tk_start token)
          (filter (\<lambda>t. length (hvalue t) > 0)
             (span highlightType content (tk_start token) (tk_end token)
                # buildOutput_loop content (tk_end token) []))"
    using o by (intro contiguous_from_span) simp_all
  then show ?case
    using o by (simp only: buildOutput_loop.simps) (intro contiguous_from_gap, simp_all)
next
  case (3 content pos token highlightType nextTok nextType rest)
  from "3.prems" have o: "pos \<le> tk_start token" "tk_start token \<le> tk_end token"
    "tk_end token \<le> tk_start nextTok" "tk_start nextTok \<le> tk_end nextTok"
    "tk_end nextTok \<le> length content"
    and r: "ordered_spans (length content) (tk_end nextTok)
              (map (\<lambda>(t, h). (tk_start t, tk_end t)) rest)"
    by simp_all
  show ?case
  proof (cases "tk_type token = ''DATA'' \<and> tk_type nextTok = ''ID''
                \<and> tk_start nextTok = tk_end token")
    case True
    have "contiguous_from content (tk_end nextTok)
            (filter (\<lambda>t. length (hvalue t) > 0) (buildOutput_loop content (tk_end nextTok) rest))"
      using True r o by (intro "3.IH"(1)) simp_all
    then have "contiguous_from content (tk_start token)
            (filter (\<lambda>t. length (hvalue t) > 0)
               (span DataVar content (tk_start token) (tk_end nextTok)
                  # buildOutput_loop content (tk_end nextTok) rest))"
      using o by (intro contiguous_from_span) simp_all
    then have "contiguous_from content pos
            (filter (\<lambda>t. length (hvalue t) > 0)
               (gap_before content pos token
                  @ span DataVar content (tk_start token) (tk_end nextTok)
                  # buildOutput_loop content (tk_end nextTok) rest))"
      using o by (intro contiguous_from_gap) simp_all
    moreover have "buildOutput_loop content pos ((token, highlightType) # (nextTok, nextType) # rest)
        = gap_before content pos token
                  @ span DataVar content (tk_start token) (tk_end nextTok)
                  # buildOutput_loop content (tk_end nextTok) rest"
      by (simp only: buildOutput_loop.simps if_P [OF True])
    ultimately show ?thesis
      by (simp only:)
  next
    case False
    have "contiguous_from content (tk_end token)
            (filter (\<lambda>t. length (hvalue t) > 0)
               (buildOutput_loop content (tk_end token) ((nextTok, nextType) # rest)))"
      using False r o by (intro "3.IH"(2)) simp_all
    then have "contiguous_from content (tk_start token)
            (filter (\<lambda>t. length (hvalue t) > 0)
               (span highlightType content (tk_start token) (tk_end token)
                  # buildOutput_loop content (tk_end token) ((nextTok, nextType) # rest)))"
      using o by (intro contiguous_from_span) simp_all
    then have "contiguous_from content pos
            (filter (\<lambda>t. length (hvalue t) > 0)
               (gap_before content pos token
                  @ span highlightType content (tk_start token) (tk_end token)
                  # buildOutput_loop content (tk_end token) ((nextTok, nextType) # rest)))"
      using o by (intro contiguous_from_gap) simp_all
    moreover have "buildOutput_loop content pos ((token, highlightType) # (nextTok, nextType) # rest)
        = gap_before content pos token
                  @ span highlightType content (tk_start token) (tk_end token)
                  # buildOutput_loop content (tk_end token) ((nextTok, nextType) # rest)"
      by (simp only: buildOutput_loop.simps if_not_P [OF False])
    ultimately show ?thesis
      by (simp only:)
  qed
qed

lemma contiguous_from_concat:
  "contiguous_from content pos toks \<Longrightarrow> concat (map hvalue toks) = drop pos content"
proof (induction toks arbitrary: pos)
  case Nil
  then show ?case by simp
next
  case (Cons t ts)
  then have t: "hstart t = pos" "pos < hend t" "hvalue t = slice content pos (hend t)"
    and ts: "contiguous_from content (hend t) ts"
    by auto
  have rest: "concat (map hvalue ts) = drop (hend t) content"
    by (rule Cons.IH [OF ts])
  have "drop (hend t - pos) (drop pos content) = drop (hend t) content"
    using t(2) by simp
  then have "slice content pos (hend t) @ drop (hend t) content = drop pos content"
    using append_take_drop_id [of "hend t - pos" "drop pos content"]
    by (simp only: slice_def)
  then show ?case
    by (simp only: list.map concat.simps t(3) rest)
qed


text \<open>
  Under that condition the tokens that \<^verbatim>\<open>tokenize\<close> returns are a contiguous partition
  of the input, for every input and every run of the scanner, ended by a throw or not.
\<close>

lemma tokenize_partitions_newline_input:
  assumes "reports_newline_offsets lexer content spans"
  shows "concat (map hvalue (tokenize lexer content)) = content
         \<and> contiguous_from content 0 (tokenize lexer content)"
proof (cases "content = []")
  case True
  then show ?thesis
    by (simp add: tokenize_def)
next
  case False
  let ?classified = "classifyTokens (annotateContext (normalizeTokens (lexerTokenize lexer content)))"
  from assms have la: "list_all2 (located content) (fst (lexer content)) spans"
    and os: "ordered_spans (length content) 0 spans"
    by (simp_all add: reports_newline_offsets_def)
  have "\<forall>(a, b)\<in>set spans. a \<le> length content \<and> b \<le> length content"
    using ordered_spans_bounds [OF os] by auto
  with la have "map (\<lambda>t. (tk_start t, tk_end t)) (lexerTokenize lexer content) = spans"
    unfolding lexerTokenize_def by (rule lexerTokenize_loop_spans)
  then have "map (\<lambda>(t, h). (tk_start t, tk_end t)) ?classified = spans"
    by (simp only: classifyTokens_spans annotateContext_spans normalizeTokens_spans)
  with os have "contiguous_from content 0
      (filter (\<lambda>t. length (hvalue t) > 0) (buildOutput_loop content 0 ?classified))"
    by (intro buildOutput_loop_partition) simp_all
  then have c: "contiguous_from content 0 (tokenize lexer content)"
    using False by (simp add: tokenize_def buildOutput_def Let_def)
  from contiguous_from_concat [OF c] c show ?thesis
    by simp
qed

lemma line_of_without_newline: "CHR 0x0A \<notin> set content \<Longrightarrow> line_of content k = Suc 0"
  by (simp add: line_of_one) (meson in_set_takeD)

text \<open>The run of the scanner on the template with a lone carriage return is not of that kind.\<close>

lemma lone_cr_not_newline_offsets:
  "\<not> reports_newline_offsets lone_cr_scanner lone_cr_template spans"
proof
  assume "reports_newline_offsets lone_cr_scanner lone_cr_template spans"
  then have la: "list_all2 (located lone_cr_template) lone_cr_terminals spans"
    by (simp add: reports_newline_offsets_def lone_cr_scanner_def)
  then have len: "length spans = 7"
    by (auto simp: lone_cr_terminals_def dest: list_all2_lengthD)
  from la have "located lone_cr_template (lone_cr_terminals ! 3) (spans ! 3)"
    by (rule list_all2_nthD) (simp add: lone_cr_terminals_def)
  then have "line_of lone_cr_template (snd (spans ! 3)) = 2"
    by (cases "spans ! 3") (simp add: located_def lone_cr_terminals_def terminal_on_def)
  moreover have "CHR 0x0A \<notin> set lone_cr_template"
    by (simp add: lone_cr_template_def)
  ultimately show False
    using line_of_without_newline [of lone_cr_template] by simp
qed

text \<open>
  C1. On the template \<^verbatim>\<open>{{a}}\r{{b}}\<close> the tokens that \<^verbatim>\<open>tokenize\<close> returns are not a
  partition of the input: \<^verbatim>\<open>locToOffset\<close> takes the line 2 that the scanner reports after
  the carriage return for a line of \<^verbatim>\<open>content.split('\n')\<close>, so the text token ends at
  offset 12 of an input of 11 characters and the second expression is not tokenized. The
  values of the tokens still concatenate to the input.
\<close>

theorem tokenize_lone_carriage_return:
  assumes "fst (lexer lone_cr_template) = lone_cr_terminals
           \<or> fst (lexer lone_cr_template)
                = lone_cr_terminals @ [terminal_on ''EOF'' [] (2, 5) (2, 5)]"
  shows "tokenize lexer lone_cr_template =
           [\<lparr>htype = Brace, hvalue = ''{{'', hstart = 0, hend = 2\<rparr>,
            \<lparr>htype = Variable, hvalue = ''a'', hstart = 2, hend = 3\<rparr>,
            \<lparr>htype = Brace, hvalue = ''}}'', hstart = 3, hend = 5\<rparr>,
            \<lparr>htype = Text, hvalue = CHR 0x0D # ''{{b}}'', hstart = 5, hend = 12\<rparr>]
         \<and> length lone_cr_template = 11
         \<and> \<not> contiguous_from lone_cr_template 0 (tokenize lexer lone_cr_template)"
    (is "?tok lexer = ?out \<and> _ \<and> _")
proof -
  have a: "tokenize (\<lambda>_. (lone_cr_terminals, ReachedEOF)) lone_cr_template = ?out"
    by code_simp
  have b: "tokenize (\<lambda>_. (lone_cr_terminals @ [terminal_on ''EOF'' [] (2, 5) (2, 5)], ReachedEOF))
             lone_cr_template = ?out"
    by code_simp
  have out: "tokenize lexer lone_cr_template = ?out"
    using assms
  proof
    assume 1: "fst (lexer lone_cr_template) = lone_cr_terminals"
    show ?thesis
      by (simp only: tokenize_scan [of lexer lone_cr_template, OF 1] a)
  next
    assume 2: "fst (lexer lone_cr_template)
                = lone_cr_terminals @ [terminal_on ''EOF'' [] (2, 5) (2, 5)]"
    show ?thesis
      by (simp only: tokenize_scan [of lexer lone_cr_template, OF 2] b)
  qed
  have len: "length lone_cr_template = 11"
    by (simp add: lone_cr_template_def)
  have "\<not> contiguous_from lone_cr_template 0 ?out"
    by (simp add: len)
  with out len show ?thesis
    by simp
qed

theorem tokenize_lone_carriage_return_witness:
  "fst (lone_cr_scanner lone_cr_template) = lone_cr_terminals
   \<and> map (\<lambda>t. (hstart t, hend t)) (tokenize lone_cr_scanner lone_cr_template)
       = [(0, 2), (2, 3), (3, 5), (5, 12)]
   \<and> length lone_cr_template = 11"
proof -
  have h: "fst (lone_cr_scanner lone_cr_template) = lone_cr_terminals"
    by (simp add: lone_cr_scanner_def)
  from h have "fst (lone_cr_scanner lone_cr_template) = lone_cr_terminals
           \<or> fst (lone_cr_scanner lone_cr_template)
                = lone_cr_terminals @ [terminal_on ''EOF'' [] (2, 5) (2, 5)]"
    by simp
  from tokenize_lone_carriage_return [of lone_cr_scanner, OF this] h show ?thesis
    by simp
qed

text \<open>
  On an unterminated comment the scanner yields no terminal before it throws, and the
  whole input becomes one text token.
\<close>

lemma tokenize_unterminated_comment:
  "tokenize failing_scanner ''{{!--'' =
     [\<lparr>htype = Text, hvalue = ''{{!--'', hstart = 0, hend = 5\<rparr>]"
  by code_simp

subsection \<open>The origin of a recording\<close>





subsection \<open>Recorded paths are collected paths\<close>









subsection \<open>The tag of a block helper\<close>






subsection \<open>Name, path and type of an extracted variable\<close>









end
